theory Spec2Isabelle
  imports
    Main
    "HOL-Library.AList"
    "HOL-Library.Multiset"
    "HOL-Library.Char_ord"
    "HOL-Library.List_Lexorder"
begin

section \<open>The keepalived log parser: data model\<close>

text \<open>
  The development embeds the log classification and state reconstruction of
  \<^verbatim>\<open>keepalived.py\<close>: \<^verbatim>\<open>getTime\<close>, \<^verbatim>\<open>setEntryVip\<close>, the last line of
  \<^verbatim>\<open>findLogs\<close>, \<^verbatim>\<open>parseLogs\<close>, \<^verbatim>\<open>processEntries\<close> and the part of \<^verbatim>\<open>run\<close> that
  chains them. The Qt widgets, the directory traversal and the reading and
  decompression of files are input and output and stay outside.

  Modelling decisions.
  \<^item> A character is a code point below 256 and a string a list of them.
  \<^item> A parsed timestamp is an instant in microseconds on one time line (an \<open>int\<close>).
    Python's \<^verbatim>\<open>datetime.fromisoformat\<close> is library code: every function takes it as
    the parameter \<open>fromiso\<close>, \<open>None\<close> standing for its \<^verbatim>\<open>ValueError\<close>. Inputs that mix
    offset-aware and naive timestamps, which Python refuses to compare, are outside
    the model.
  \<^item> An \<^verbatim>\<open>OrderedDict\<close> is an association list in insertion order with distinct keys.
  \<^item> An exception is a value of type \<open>error\<close>; a function that may raise returns
    \<open>error + 'a\<close> and the state reached before the exception is dropped, as \<^verbatim>\<open>run\<close>
    re-raises.
\<close>

datatype error =
    IndexError                \<comment> \<open>a list index out of range\<close>
  | ValueError_isoformat      \<comment> \<open>\<^verbatim>\<open>fromisoformat\<close> rejects its argument\<close>
  | ValueError_not_in_list    \<comment> \<open>\<^verbatim>\<open>list.index\<close> does not find its argument\<close>
  | Exception_No_log_entries  \<comment> \<open>\<^verbatim>\<open>Exception('No log entries')\<close>\<close>

text \<open>The six module constants \<^verbatim>\<open>scriptSucceeded\<close> ... \<^verbatim>\<open>nodeAddress\<close> name the kinds of event.\<close>

datatype event = scriptSucceeded | scriptFailed | tookVip | lostVip | reloading | nodeAddress

record LogEntry =
  timestamp :: int
  line :: string
  event :: event
  vip :: nat   \<comment> \<open>0 = API 0, 1 = API 1, 2 = Ingress 0, 3 = Ingress 1\<close>

definition LogEntry_init :: "int \<Rightarrow> string \<Rightarrow> event \<Rightarrow> LogEntry" where
  "LogEntry_init t l e = \<lparr>timestamp = t, line = l, event = e, vip = 0\<rparr>"

record NodeData =
  vipChanges :: "int list list"
  events :: "LogEntry list"
  addrs :: "string set"

definition NodeData_init :: NodeData where
  "NodeData_init = \<lparr>vipChanges = [[], [], [], []], events = [], addrs = {}\<rparr>"

text \<open>
  A log file as \<^verbatim>\<open>findLogs\<close> hands it over: the components of its path
  (\<^verbatim>\<open>Path.parts\<close>) and the lines its handle yields.
\<close>

record logfile =
  parts :: "string list"
  content :: "string list"

text \<open>The fields of the parser object that the core reads and writes.\<close>

record KeepalivedLogParser =
  logEntries :: "(string \<times> LogEntry list) list"
  nodeData :: "(string \<times> NodeData) list"
  timeBounds :: "int option \<times> int option"
  vips :: "string list"

definition KeepalivedLogParser_init :: KeepalivedLogParser where
  "KeepalivedLogParser_init =
     \<lparr>logEntries = [], nodeData = [], timeBounds = (None, None), vips = [[], [], [], []]\<rparr>"

section \<open>Strings\<close>

text \<open>\<^verbatim>\<open>str.isspace\<close> on the code points below 256.\<close>

definition isspace :: "char \<Rightarrow> bool" where
  "isspace c =
     (let n = (of_char c :: nat)
      in (9 \<le> n \<and> n \<le> 13) \<or> (28 \<le> n \<and> n \<le> 32) \<or> n = 133 \<or> n = 160)"

text \<open>\<^verbatim>\<open>str.split()\<close>: the maximal runs of characters that are not whitespace.\<close>

fun split_aux :: "string \<Rightarrow> string \<Rightarrow> string list" where
  "split_aux cur [] = (if cur = [] then [] else [cur])"
| "split_aux cur (c # cs) =
     (if isspace c then (if cur = [] then split_aux [] cs else cur # split_aux [] cs)
      else split_aux (cur @ [c]) cs)"

definition split :: "string \<Rightarrow> string list" where
  "split s = split_aux [] s"

text \<open>\<^verbatim>\<open>sub in s\<close>: \<open>sub\<close> occurs in \<open>s\<close> as a contiguous substring.\<close>

fun startswith :: "string \<Rightarrow> string \<Rightarrow> bool" where
  "startswith [] s = True"
| "startswith (p # ps) [] = False"
| "startswith (p # ps) (c # cs) = (p = c \<and> startswith ps cs)"

fun str_in :: "string \<Rightarrow> string \<Rightarrow> bool" where
  "str_in sub [] = (sub = [])"
| "str_in sub (c # cs) = (startswith sub (c # cs) \<or> str_in sub cs)"

text \<open>\<^verbatim>\<open>list.index\<close>: the first position of an element, \<open>None\<close> for \<^verbatim>\<open>ValueError\<close>.\<close>

fun index_of :: "'a \<Rightarrow> 'a list \<Rightarrow> nat option" where
  "index_of x [] = None"
| "index_of x (y # ys) = (if x = y then Some 0 else map_option Suc (index_of x ys))"

section \<open>Timestamps and VIP slots\<close>

text \<open>
  \<^verbatim>\<open>getTime\<close>: \<^verbatim>\<open>fromisoformat(line.split()[0]).replace(microsecond=0)\<close>. A line
  with no token raises \<^verbatim>\<open>IndexError\<close>.
\<close>

definition getTime :: "(string \<Rightarrow> int option) \<Rightarrow> string \<Rightarrow> error + int" where
  "getTime fromiso l =
     (case split l of
        [] \<Rightarrow> Inl IndexError
      | tok # _ \<Rightarrow>
          (case fromiso tok of
             None \<Rightarrow> Inl ValueError_isoformat
           | Some t \<Rightarrow> Inr (t - t mod 1000000)))"

definition setEntryVip :: "LogEntry \<Rightarrow> string \<Rightarrow> LogEntry" where
  "setEntryVip entry l =
     (if str_in ''API_1'' l then entry\<lparr>vip := 1\<rparr>
      else if str_in ''INGRESS_0'' l \<or> str_in ''_INGRESS)'' l then entry\<lparr>vip := 2\<rparr>
      else if str_in ''INGRESS_1'' l then entry\<lparr>vip := 3\<rparr>
      else entry)"

section \<open>Collecting the entries: \<^verbatim>\<open>parseLogs\<close>\<close>

text \<open>\<^verbatim>\<open>d.setdefault(k, v)\<close> and \<^verbatim>\<open>d[k].append(e)\<close> on an ordered dictionary of lists.\<close>

definition setdefault :: "('k \<times> 'v) list \<Rightarrow> 'k \<Rightarrow> 'v \<Rightarrow> ('k \<times> 'v) list" where
  "setdefault d k v = (case map_of d k of None \<Rightarrow> d @ [(k, v)] | Some _ \<Rightarrow> d)"

text \<open>
  The key is present whenever the parser appends: line 179 has put it there.
\<close>

definition append_entry :: "string \<Rightarrow> LogEntry \<Rightarrow> KeepalivedLogParser \<Rightarrow> KeepalivedLogParser" where
  "append_entry name entry self =
     self\<lparr>logEntries := AList.map_entry name (\<lambda>es. es @ [entry]) (logEntries self)\<rparr>"

text \<open>Lines 188 to 191: the earliest and the latest timestamp seen.\<close>

definition update_timeBounds :: "int \<Rightarrow> int option \<times> int option \<Rightarrow> int option \<times> int option" where
  "update_timeBounds t tb =
     (let lo = (case fst tb of
                  None \<Rightarrow> Some t
                | Some b \<Rightarrow> if t < b then Some t else Some b);
          hi = (case snd tb of
                  None \<Rightarrow> Some t
                | Some b \<Rightarrow> if t > b then Some t else Some b)
      in (lo, hi))"

text \<open>The substring tests of the loop body, in the order of the source.\<close>

definition is_script :: "string \<Rightarrow> bool" where
  "is_script l = (str_in ''VRRP_Script'' l \<and> (str_in ''succeeded'' l \<or> str_in ''failed'' l))"

definition is_arp :: "string \<Rightarrow> bool" where
  "is_arp l = (str_in ''Sending/queueing gratuitous ARPs'' l \<or>
               str_in ''Sending/queueing Unsolicited Neighbour Adverts'' l)"

definition is_master :: "string \<Rightarrow> bool" where
  "is_master l = str_in ''Entering MASTER STATE'' l"

definition is_backup :: "string \<Rightarrow> bool" where
  "is_backup l = str_in ''Entering BACKUP STATE'' l"

definition is_reload :: "string \<Rightarrow> bool" where
  "is_reload l = str_in ''Reloading ...'' l"

definition is_assigned :: "string \<Rightarrow> bool" where
  "is_assigned l = str_in ''Assigned address'' l"

text \<open>Lines 193 to 200.\<close>

definition on_script :: "string \<Rightarrow> int \<Rightarrow> string \<Rightarrow> KeepalivedLogParser \<Rightarrow> KeepalivedLogParser" where
  "on_script name t l self =
     (if is_script l then
        (let entry = LogEntry_init t l scriptFailed;
             entry = (if str_in ''succeeded'' l then entry\<lparr>event := scriptSucceeded\<rparr> else entry);
             entry = entry\<lparr>vip := 1\<rparr>;
             entry = (if str_in ''chk_ocp'' l then entry\<lparr>vip := 0\<rparr> else entry)
         in append_entry name entry self)
      else self)"

text \<open>
  Lines 203 to 210. \<open>gratuitousArp\<close> is the local list of \<^verbatim>\<open>parseLogs\<close>, one flag
  for each slot.
\<close>

definition on_arp ::
  "string \<Rightarrow> int \<Rightarrow> string \<Rightarrow> KeepalivedLogParser \<times> bool list \<Rightarrow>
   error + (KeepalivedLogParser \<times> bool list)" where
  "on_arp name t l sg =
     (let (self, gratuitousArp) = sg in
      if is_arp l then
        (let entry = setEntryVip (LogEntry_init t l tookVip) l in
         case split l of
           [] \<Rightarrow> Inl IndexError
         | w # ws \<Rightarrow>
             (let self = self\<lparr>vips := (vips self)[vip entry := last (w # ws)]\<rparr> in
              if \<not> gratuitousArp ! vip entry then
                Inr (append_entry name entry self, gratuitousArp[vip entry := True])
              else Inr (self, gratuitousArp)))
      else Inr (self, gratuitousArp))"

text \<open>Lines 211 to 216.\<close>

definition on_master ::
  "string \<Rightarrow> int \<Rightarrow> string \<Rightarrow> KeepalivedLogParser \<times> bool list \<Rightarrow>
   KeepalivedLogParser \<times> bool list" where
  "on_master name t l sg =
     (let (self, gratuitousArp) = sg in
      if is_master l then
        (let entry = setEntryVip (LogEntry_init t l tookVip) l
         in (append_entry name entry self, gratuitousArp[vip entry := True]))
      else (self, gratuitousArp))"

text \<open>Lines 217 to 226.\<close>

definition on_backup :: "string \<Rightarrow> int \<Rightarrow> string \<Rightarrow> KeepalivedLogParser \<Rightarrow> KeepalivedLogParser" where
  "on_backup name t l self =
     (if is_backup l then append_entry name (setEntryVip (LogEntry_init t l lostVip) l) self
      else self)"

definition on_reload :: "string \<Rightarrow> int \<Rightarrow> string \<Rightarrow> KeepalivedLogParser \<Rightarrow> KeepalivedLogParser" where
  "on_reload name t l self =
     (if is_reload l then append_entry name (LogEntry_init t l reloading) self else self)"

definition on_assigned :: "string \<Rightarrow> int \<Rightarrow> string \<Rightarrow> KeepalivedLogParser \<Rightarrow> KeepalivedLogParser" where
  "on_assigned name t l self =
     (if is_assigned l then append_entry name (LogEntry_init t l nodeAddress) self else self)"

text \<open>The body of the loop over the lines of one file, lines 186 to 226.\<close>

definition parseLine ::
  "(string \<Rightarrow> int option) \<Rightarrow> string \<Rightarrow> KeepalivedLogParser \<times> bool list \<Rightarrow> string \<Rightarrow>
   error + (KeepalivedLogParser \<times> bool list)" where
  "parseLine fromiso name sg l =
     (case getTime fromiso l of
        Inl e \<Rightarrow> Inl e
      | Inr t \<Rightarrow>
          (let (self, gratuitousArp) = sg;
               self = self\<lparr>timeBounds := update_timeBounds t (timeBounds self)\<rparr>;
               self = on_script name t l self
           in case on_arp name t l (self, gratuitousArp) of
                Inl e \<Rightarrow> Inl e
              | Inr sg1 \<Rightarrow>
                  (let (self, gratuitousArp) = on_master name t l sg1;
                       self = on_backup name t l self;
                       self = on_reload name t l self;
                       self = on_assigned name t l self
                   in Inr (self, gratuitousArp))))"

fun parseLines ::
  "(string \<Rightarrow> int option) \<Rightarrow> string \<Rightarrow> KeepalivedLogParser \<times> bool list \<Rightarrow> string list \<Rightarrow>
   error + (KeepalivedLogParser \<times> bool list)" where
  "parseLines fromiso name sg [] = Inr sg"
| "parseLines fromiso name sg (l # ls) =
     (case parseLine fromiso name sg l of
        Inl e \<Rightarrow> Inl e
      | Inr sg' \<Rightarrow> parseLines fromiso name sg' ls)"

text \<open>
  Lines 175 to 178: the node of a file is its file name, or in a must-gather the
  path component after the first \<^verbatim>\<open>pods\<close>.
\<close>

definition node_name :: "bool \<Rightarrow> logfile \<Rightarrow> error + string" where
  "node_name isMustGather f =
     (if isMustGather then
        (case index_of ''pods'' (parts f) of
           None \<Rightarrow> Inl ValueError_not_in_list
         | Some i \<Rightarrow>
             if i + 1 < length (parts f) then Inr (parts f ! (i + 1)) else Inl IndexError)
      else Inr (if parts f = [] then [] else last (parts f)))"

text \<open>
  The body of the loop over the files, lines 175 to 226. Lines 181 to 184 choose how to
  open the file; the model starts from the lines the handle yields.
\<close>

definition parseFile ::
  "(string \<Rightarrow> int option) \<Rightarrow> bool \<Rightarrow> KeepalivedLogParser \<Rightarrow> logfile \<Rightarrow>
   error + KeepalivedLogParser" where
  "parseFile fromiso isMustGather self f =
     (case node_name isMustGather f of
        Inl e \<Rightarrow> Inl e
      | Inr name \<Rightarrow>
          (let self = self\<lparr>logEntries := setdefault (logEntries self) name []\<rparr>;
               gratuitousArp = [False, False, False, False]
           in case parseLines fromiso name (self, gratuitousArp) (content f) of
                Inl e \<Rightarrow> Inl e
              | Inr (self', _) \<Rightarrow> Inr self'))"

fun parseLogs ::
  "(string \<Rightarrow> int option) \<Rightarrow> bool \<Rightarrow> KeepalivedLogParser \<Rightarrow> logfile list \<Rightarrow>
   error + KeepalivedLogParser" where
  "parseLogs fromiso isMustGather self [] = Inr self"
| "parseLogs fromiso isMustGather self (f # fs) =
     (case parseFile fromiso isMustGather self f of
        Inl e \<Rightarrow> Inl e
      | Inr self' \<Rightarrow> parseLogs fromiso isMustGather self' fs)"

section \<open>Replaying the entries: \<^verbatim>\<open>processEntries\<close>\<close>

text \<open>Lines 248 to 254: the possession state machine of the entry's slot.\<close>

definition vip_event :: "LogEntry \<Rightarrow> NodeData \<times> bool list \<Rightarrow> NodeData \<times> bool list" where
  "vip_event entry nh =
     (let (nd, haveVip) = nh in
      if haveVip ! vip entry then
        (if event entry = lostVip then
           (nd\<lparr>vipChanges := (vipChanges nd)
                  [vip entry := vipChanges nd ! vip entry @ [timestamp entry]]\<rparr>,
            haveVip[vip entry := False])
         else (nd, haveVip))
      else if event entry = tookVip then
        (nd\<lparr>vipChanges := (vipChanges nd)
               [vip entry := vipChanges nd ! vip entry @ [timestamp entry]]\<rparr>,
         haveVip[vip entry := True])
      else (nd, haveVip))"

text \<open>Lines 256 to 259: health checks and reloads.\<close>

definition health_event :: "LogEntry \<Rightarrow> NodeData \<Rightarrow> NodeData" where
  "health_event entry nd =
     (let nd = (if event entry \<in> set [scriptSucceeded, scriptFailed]
                then nd\<lparr>events := events nd @ [entry]\<rparr> else nd)
      in if event entry = reloading then nd\<lparr>events := events nd @ [entry]\<rparr> else nd)"

text \<open>Lines 260 to 263: the token after the token \<^verbatim>\<open>address\<close>.\<close>

definition address_event :: "LogEntry \<Rightarrow> NodeData \<Rightarrow> error + NodeData" where
  "address_event entry nd =
     (if event entry = nodeAddress then
        (let ps = split (line entry) in
         case index_of ''address'' ps of
           None \<Rightarrow> Inl ValueError_not_in_list
         | Some i \<Rightarrow>
             if i + 1 < length ps then Inr (nd\<lparr>addrs := insert (ps ! (i + 1)) (addrs nd)\<rparr>)
             else Inl IndexError)
      else Inr nd)"

text \<open>The body of the loop over the sorted entries of one node.\<close>

definition replayEntry :: "NodeData \<times> bool list \<Rightarrow> LogEntry \<Rightarrow> error + (NodeData \<times> bool list)" where
  "replayEntry nh entry =
     (let (nd, haveVip) = vip_event entry nh;
          nd = health_event entry nd
      in case address_event entry nd of
           Inl e \<Rightarrow> Inl e
         | Inr nd' \<Rightarrow> Inr (nd', haveVip))"

fun replay :: "NodeData \<times> bool list \<Rightarrow> LogEntry list \<Rightarrow> error + (NodeData \<times> bool list)" where
  "replay nh [] = Inr nh"
| "replay nh (entry # es) =
     (case replayEntry nh entry of
        Inl e \<Rightarrow> Inl e
      | Inr nh' \<Rightarrow> replay nh' es)"

text \<open>
  Lines 242 to 263 for one node. \<^verbatim>\<open>sorted(entries, key=...)\<close> is a stable sort, as
  \<^const>\<open>sort_key\<close> is.
\<close>

definition processNode :: "LogEntry list \<Rightarrow> error + NodeData" where
  "processNode entries =
     (case replay (NodeData_init, [False, False, False, False]) (sort_key timestamp entries) of
        Inl e \<Rightarrow> Inl e
      | Inr (nd, _) \<Rightarrow> Inr nd)"

fun processNodes ::
  "KeepalivedLogParser \<Rightarrow> (string \<times> LogEntry list) list \<Rightarrow> error + KeepalivedLogParser" where
  "processNodes self [] = Inr self"
| "processNodes self ((name, entries) # rest) =
     (case processNode entries of
        Inl e \<Rightarrow> Inl e
      | Inr nd \<Rightarrow> processNodes (self\<lparr>nodeData := AList.update name nd (nodeData self)\<rparr>) rest)"

definition processEntries :: "KeepalivedLogParser \<Rightarrow> error + KeepalivedLogParser" where
  "processEntries self =
     (if length (logEntries self) = 0 then Inl Exception_No_log_entries
      else processNodes self (logEntries self))"

section \<open>The pipeline: \<^verbatim>\<open>findLogs\<close> and \<^verbatim>\<open>run\<close>\<close>

text \<open>
  Of \<^verbatim>\<open>findLogs\<close> the model keeps line 161: the files collected by the traversal,
  in the order of the scan, are sorted by their paths. Paths compare as the lists of
  their components, and strings by code point.
\<close>

definition findLogs :: "logfile list \<Rightarrow> logfile list" where
  "findLogs scanned = sort_key parts scanned"

text \<open>
  Lines 125 to 127 of \<^verbatim>\<open>run\<close>: \<^verbatim>\<open>parseLogs\<close> and \<^verbatim>\<open>processEntries\<close> on the list
  \<^verbatim>\<open>self.logFiles\<close>, from a fresh parser object.
\<close>

definition parse_and_process ::
  "(string \<Rightarrow> int option) \<Rightarrow> bool \<Rightarrow> logfile list \<Rightarrow> error + KeepalivedLogParser" where
  "parse_and_process fromiso isMustGather logFiles =
     (case parseLogs fromiso isMustGather KeepalivedLogParser_init logFiles of
        Inl e \<Rightarrow> Inl e
      | Inr self \<Rightarrow> processEntries self)"

text \<open>\<^verbatim>\<open>run\<close> up to \<^verbatim>\<open>processEntries\<close>: the files found, sorted, parsed and replayed.\<close>

definition run ::
  "(string \<Rightarrow> int option) \<Rightarrow> bool \<Rightarrow> logfile list \<Rightarrow> error + KeepalivedLogParser" where
  "run fromiso isMustGather scanned = parse_and_process fromiso isMustGather (findLogs scanned)"

section \<open>What one line, one file and one node contribute\<close>

text \<open>
  The loop body read as a function of the line: the slot \<^verbatim>\<open>setEntryVip\<close> assigns,
  the entries each block appends, and the updates of \<^verbatim>\<open>gratuitousArp\<close> and of
  \<^verbatim>\<open>self.vips\<close>. The lemmas below show that \<^const>\<open>parseLine\<close> computes exactly these.
\<close>

definition slot_of :: "string \<Rightarrow> nat" where
  "slot_of l = vip (setEntryVip (LogEntry_init 0 l tookVip) l)"

definition extend :: "string \<Rightarrow> LogEntry list \<Rightarrow> KeepalivedLogParser \<Rightarrow> KeepalivedLogParser" where
  "extend name new self =
     self\<lparr>logEntries := AList.map_entry name (\<lambda>es. es @ new) (logEntries self)\<rparr>"

definition script_entries :: "int \<Rightarrow> string \<Rightarrow> LogEntry list" where
  "script_entries t l =
     (if is_script l then
        [\<lparr>timestamp = t, line = l,
          event = (if str_in ''succeeded'' l then scriptSucceeded else scriptFailed),
          vip = (if str_in ''chk_ocp'' l then 0 else 1)\<rparr>]
      else [])"

definition arp_entries :: "bool list \<Rightarrow> int \<Rightarrow> string \<Rightarrow> LogEntry list" where
  "arp_entries gratuitousArp t l =
     (if is_arp l \<and> \<not> gratuitousArp ! slot_of l
      then [\<lparr>timestamp = t, line = l, event = tookVip, vip = slot_of l\<rparr>] else [])"

definition master_entries :: "int \<Rightarrow> string \<Rightarrow> LogEntry list" where
  "master_entries t l =
     (if is_master l then [\<lparr>timestamp = t, line = l, event = tookVip, vip = slot_of l\<rparr>] else [])"

definition backup_entries :: "int \<Rightarrow> string \<Rightarrow> LogEntry list" where
  "backup_entries t l =
     (if is_backup l then [\<lparr>timestamp = t, line = l, event = lostVip, vip = slot_of l\<rparr>] else [])"

definition reload_entries :: "int \<Rightarrow> string \<Rightarrow> LogEntry list" where
  "reload_entries t l =
     (if is_reload l then [\<lparr>timestamp = t, line = l, event = reloading, vip = 0\<rparr>] else [])"

definition assigned_entries :: "int \<Rightarrow> string \<Rightarrow> LogEntry list" where
  "assigned_entries t l =
     (if is_assigned l then [\<lparr>timestamp = t, line = l, event = nodeAddress, vip = 0\<rparr>] else [])"

definition line_entries :: "bool list \<Rightarrow> int \<Rightarrow> string \<Rightarrow> LogEntry list" where
  "line_entries gratuitousArp t l =
     script_entries t l @ arp_entries gratuitousArp t l @ master_entries t l @
     backup_entries t l @ reload_entries t l @ assigned_entries t l"

definition line_garp :: "bool list \<Rightarrow> string \<Rightarrow> bool list" where
  "line_garp gratuitousArp l =
     (let g = (if is_arp l \<and> \<not> gratuitousArp ! slot_of l
               then gratuitousArp[slot_of l := True] else gratuitousArp)
      in if is_master l then g[slot_of l := True] else g)"

definition line_vips :: "string list \<Rightarrow> string \<Rightarrow> string list" where
  "line_vips vs l = (if is_arp l then vs[slot_of l := last (split l)] else vs)"

text \<open>The timestamp of a line that has one.\<close>

definition time_of :: "(string \<Rightarrow> int option) \<Rightarrow> string \<Rightarrow> int" where
  "time_of fromiso l = (case getTime fromiso l of Inl _ \<Rightarrow> 0 | Inr t \<Rightarrow> t)"

text \<open>The node name of a file that has one.\<close>

definition name_of :: "bool \<Rightarrow> logfile \<Rightarrow> string" where
  "name_of isMustGather f = (case node_name isMustGather f of Inl _ \<Rightarrow> [] | Inr n \<Rightarrow> n)"

text \<open>
  The entries of the lines of one file, from the flags \<open>gratuitousArp\<close> on, and the
  flags after them.
\<close>

fun lines_entries :: "(string \<Rightarrow> int option) \<Rightarrow> bool list \<Rightarrow> string list \<Rightarrow> LogEntry list" where
  "lines_entries fromiso gratuitousArp [] = []"
| "lines_entries fromiso gratuitousArp (l # ls) =
     line_entries gratuitousArp (time_of fromiso l) l @
     lines_entries fromiso (line_garp gratuitousArp l) ls"

definition file_entries :: "(string \<Rightarrow> int option) \<Rightarrow> logfile \<Rightarrow> LogEntry list" where
  "file_entries fromiso f = lines_entries fromiso [False, False, False, False] (content f)"

text \<open>A file parses when it has a node name and each of its lines has a timestamp.\<close>

definition file_ok :: "(string \<Rightarrow> int option) \<Rightarrow> bool \<Rightarrow> logfile \<Rightarrow> bool" where
  "file_ok fromiso isMustGather f =
     (\<not> isl (node_name isMustGather f) \<and> list_all (\<lambda>l. \<not> isl (getTime fromiso l)) (content f))"

text \<open>What parsing one file does to the dictionary \<^verbatim>\<open>self.logEntries\<close>.\<close>

definition add_file ::
  "(string \<Rightarrow> int option) \<Rightarrow> bool \<Rightarrow> (string \<times> LogEntry list) list \<Rightarrow> logfile \<Rightarrow>
   (string \<times> LogEntry list) list" where
  "add_file fromiso isMustGather d f =
     AList.map_entry (name_of isMustGather f) (\<lambda>es. es @ file_entries fromiso f)
       (setdefault d (name_of isMustGather f) [])"

text \<open>A line is recognized when one of the six tests of the loop body holds.\<close>

definition recognized :: "string \<Rightarrow> bool" where
  "recognized l =
     (is_script l \<or> is_arp l \<or> is_master l \<or> is_backup l \<or> is_reload l \<or> is_assigned l)"

text \<open>
  The entries that the ARP block alone (lines 203 to 210) appends over the lines of a
  file, with the flags threaded as \<^const>\<open>lines_entries\<close> threads them.
\<close>

fun arp_emitted :: "(string \<Rightarrow> int option) \<Rightarrow> bool list \<Rightarrow> string list \<Rightarrow> LogEntry list" where
  "arp_emitted fromiso gratuitousArp [] = []"
| "arp_emitted fromiso gratuitousArp (l # ls) =
     arp_entries gratuitousArp (time_of fromiso l) l @
     arp_emitted fromiso (line_garp gratuitousArp l) ls"

text \<open>
  The entries at which the state machine of one slot changes state, given whether the
  slot is held before the first of them; and the property of a list of entries to be a
  take, a loss, a take and so on (or, when the slot is held at the start, a loss first).
\<close>

fun transitions :: "nat \<Rightarrow> bool \<Rightarrow> LogEntry list \<Rightarrow> LogEntry list" where
  "transitions slot held [] = []"
| "transitions slot held (e # es) =
     (if vip e = slot \<and> event e = (if held then lostVip else tookVip)
      then e # transitions slot (\<not> held) es
      else transitions slot held es)"

fun alternates :: "bool \<Rightarrow> LogEntry list \<Rightarrow> bool" where
  "alternates held [] = True"
| "alternates held (e # es) =
     (event e = (if held then lostVip else tookVip) \<and> alternates (\<not> held) es)"

text \<open>
  A reading of four timestamps for the concrete runs below: it agrees with
  \<^verbatim>\<open>fromisoformat\<close> on the tokens it knows (microseconds since 1970, the naive time
  read as UTC) and rejects every other token.
\<close>

definition iso_sample :: "string \<Rightarrow> int option" where
  "iso_sample tok =
     (if tok = ''2023-01-01T00:00:00'' then Some 1672531200000000
      else if tok = ''2023-01-01T00:05:00'' then Some 1672531500000000
      else if tok = ''2023-01-01T00:00:00.250000'' then Some 1672531200250000
      else if tok = ''2023-01-01T00:00:00.750000'' then Some 1672531200750000
      else None)"

section \<open>Lemmas about the parser\<close>

subsection \<open>The loop body as a function of the line\<close>

lemma map_entry_map_entry:
  "AList.map_entry k f (AList.map_entry k g xs) = AList.map_entry k (f \<circ> g) xs"
  by (induction xs) auto

lemma map_entry_ident: "AList.map_entry k (\<lambda>es. es) xs = xs"
  by (induction xs) auto

lemma extend_Nil: "extend name [] self = self"
  by (simp add: extend_def map_entry_ident)

lemma extend_extend: "extend name b (extend name a self) = extend name (a @ b) self"
  by (simp add: extend_def map_entry_map_entry comp_def)

lemma append_entry_extend: "append_entry name e self = extend name [e] self"
  by (simp add: append_entry_def extend_def)

lemma setEntryVip_init:
  "setEntryVip (LogEntry_init t l ev) l = \<lparr>timestamp = t, line = l, event = ev, vip = slot_of l\<rparr>"
  by (simp add: setEntryVip_def slot_of_def LogEntry_init_def)

lemma slot_of_less: "slot_of l < 4"
  by (simp add: setEntryVip_def slot_of_def LogEntry_init_def)

lemma on_script_extend: "on_script name t l self = extend name (script_entries t l) self"
  by (simp add: on_script_def script_entries_def append_entry_extend extend_Nil LogEntry_init_def Let_def)

lemma on_backup_extend: "on_backup name t l self = extend name (backup_entries t l) self"
  by (simp add: on_backup_def backup_entries_def append_entry_extend extend_Nil setEntryVip_init)

lemma on_reload_extend: "on_reload name t l self = extend name (reload_entries t l) self"
  by (simp add: on_reload_def reload_entries_def append_entry_extend extend_Nil LogEntry_init_def)

lemma on_assigned_extend: "on_assigned name t l self = extend name (assigned_entries t l) self"
  by (simp add: on_assigned_def assigned_entries_def append_entry_extend extend_Nil LogEntry_init_def)

lemma on_master_extend:
  "on_master name t l (self, g) =
     (extend name (master_entries t l) self, if is_master l then g[slot_of l := True] else g)"
  by (simp add: on_master_def master_entries_def append_entry_extend extend_Nil setEntryVip_init)

lemma extend_vips: "vips (extend name new self) = vips self"
  by (simp add: extend_def)

lemma extend_upd_vips: "extend name new (self\<lparr>vips := v\<rparr>) = (extend name new self)\<lparr>vips := v\<rparr>"
  by (simp add: extend_def)

lemma on_arp_extend:
  "split l \<noteq> [] \<Longrightarrow>
   on_arp name t l (self, g) =
     Inr ((extend name (arp_entries g t l) self)\<lparr>vips := line_vips (vips self) l\<rparr>,
          if is_arp l \<and> \<not> g ! slot_of l then g[slot_of l := True] else g)"
  by (cases "split l")
     (auto simp: on_arp_def arp_entries_def line_vips_def append_entry_extend extend_Nil
        setEntryVip_init extend_upd_vips extend_vips Let_def)

lemma getTime_split: "getTime fromiso l = Inr t \<Longrightarrow> split l \<noteq> []"
  by (auto simp: getTime_def)

lemma parseLine_eq:
  assumes "getTime fromiso l = Inr t"
  shows "parseLine fromiso name (self, g) l =
     Inr (self\<lparr>logEntries := AList.map_entry name (\<lambda>es. es @ line_entries g t l) (logEntries self),
               timeBounds := update_timeBounds t (timeBounds self),
               vips := line_vips (vips self) l\<rparr>, line_garp g l)"
  using assms getTime_split [OF assms]
  by (simp add: parseLine_def on_script_extend on_arp_extend on_master_extend on_backup_extend
      on_reload_extend on_assigned_extend extend_extend extend_upd_vips extend_vips
      line_entries_def line_garp_def Let_def)
     (simp add: extend_def)

lemma parseLine_err:
  "getTime fromiso l = Inl e \<Longrightarrow> parseLine fromiso name sg l = Inl e"
  by (simp add: parseLine_def)

lemma time_of_eq: "getTime fromiso l = Inr t \<Longrightarrow> time_of fromiso l = t"
  by (simp add: time_of_def)

subsection \<open>One file\<close>

lemma parseLines_eq:
  "\<forall>l\<in>set ls. \<not> isl (getTime fromiso l) \<Longrightarrow>
   parseLines fromiso name (self, g) ls =
     Inr (self\<lparr>logEntries :=
                 AList.map_entry name (\<lambda>es. es @ lines_entries fromiso g ls) (logEntries self),
               timeBounds :=
                 foldl (\<lambda>b t. update_timeBounds t b) (timeBounds self) (map (time_of fromiso) ls),
               vips := foldl line_vips (vips self) ls\<rparr>,
          foldl line_garp g ls)"
proof (induction ls arbitrary: self g)
  case Nil
  then show ?case by (simp add: map_entry_ident)
next
  case (Cons l ls)
  then obtain t where t: "getTime fromiso l = Inr t"
    by (cases "getTime fromiso l") auto
  from Cons.prems have rest: "\<forall>l\<in>set ls. \<not> isl (getTime fromiso l)" by simp
  show ?case
    by (simp add: parseLine_eq [OF t] Cons.IH [OF rest] time_of_eq [OF t]
        map_entry_map_entry comp_def)
qed

lemma parseLines_err:
  "parseLines fromiso name sg ls = Inl e \<Longrightarrow> \<exists>l\<in>set ls. getTime fromiso l = Inl e"
proof (induction ls arbitrary: sg)
  case Nil
  then show ?case by simp
next
  case (Cons l ls)
  show ?case
  proof (cases "getTime fromiso l")
    case (Inl e')
    with Cons.prems show ?thesis by (simp add: parseLine_err)
  next
    case (Inr t)
    obtain self g where sg: "sg = (self, g)" by (cases sg)
    from Cons.prems Cons.IH show ?thesis
      by (auto simp: sg parseLine_eq [OF Inr])
  qed
qed

lemma parseLines_Inr_ok:
  "parseLines fromiso name sg ls = Inr sg' \<Longrightarrow> \<forall>l\<in>set ls. \<not> isl (getTime fromiso l)"
proof (induction ls arbitrary: sg)
  case Nil
  then show ?case by simp
next
  case (Cons l ls)
  show ?case
  proof (cases "getTime fromiso l")
    case (Inl e')
    with Cons.prems show ?thesis by (simp add: parseLine_err)
  next
    case (Inr t)
    obtain self g where sg: "sg = (self, g)" by (cases sg)
    from Cons.prems Cons.IH show ?thesis
      by (auto simp: sg Inr parseLine_eq [OF Inr])
  qed
qed

lemma name_of_eq: "node_name mg f = Inr n \<Longrightarrow> name_of mg f = n"
  by (simp add: name_of_def)

lemma parseFile_eq:
  assumes "\<not> isl (node_name mg f)" and "\<forall>l\<in>set (content f). \<not> isl (getTime fromiso l)"
  shows "parseFile fromiso mg self f =
     Inr (self\<lparr>logEntries :=
                 AList.map_entry (name_of mg f) (\<lambda>es. es @ file_entries fromiso f)
                   (setdefault (logEntries self) (name_of mg f) []),
               timeBounds :=
                 foldl (\<lambda>b t. update_timeBounds t b) (timeBounds self)
                   (map (time_of fromiso) (content f)),
               vips := foldl line_vips (vips self) (content f)\<rparr>)"
proof -
  from assms(1) obtain n where n: "node_name mg f = Inr n"
    by (cases "node_name mg f") auto
  show ?thesis
    by (simp add: parseFile_def n name_of_eq [OF n] parseLines_eq [OF assms(2)] file_entries_def)
qed

lemma parseFile_Inr_ok:
  assumes "parseFile fromiso mg self f = Inr self'"
  shows "\<not> isl (node_name mg f) \<and> (\<forall>l\<in>set (content f). \<not> isl (getTime fromiso l))"
  using assms
  by (auto simp: parseFile_def Let_def split: sum.splits prod.splits dest!: parseLines_Inr_ok)

subsection \<open>All files\<close>

lemma file_ok_iff:
  "file_ok fromiso mg f \<longleftrightarrow>
   \<not> isl (node_name mg f) \<and> (\<forall>l\<in>set (content f). \<not> isl (getTime fromiso l))"
  by (simp add: file_ok_def list_all_iff)

lemma parseFile_ok:
  "file_ok fromiso mg f \<Longrightarrow>
   parseFile fromiso mg self f =
     Inr (self\<lparr>logEntries := add_file fromiso mg (logEntries self) f,
               timeBounds :=
                 foldl (\<lambda>b t. update_timeBounds t b) (timeBounds self)
                   (map (time_of fromiso) (content f)),
               vips := foldl line_vips (vips self) (content f)\<rparr>)"
  by (simp add: file_ok_iff parseFile_eq add_file_def)

lemma parseFile_Inr_file_ok: "parseFile fromiso mg self f = Inr self' \<Longrightarrow> file_ok fromiso mg f"
  using parseFile_Inr_ok [of fromiso mg self f self'] by (simp add: file_ok_iff)

lemma parseLogs_eq:
  "\<forall>f\<in>set fs. file_ok fromiso mg f \<Longrightarrow>
   parseLogs fromiso mg self fs =
     Inr (self\<lparr>logEntries := foldl (add_file fromiso mg) (logEntries self) fs,
               timeBounds :=
                 foldl (\<lambda>b t. update_timeBounds t b) (timeBounds self)
                   (map (time_of fromiso) (concat (map content fs))),
               vips := foldl line_vips (vips self) (concat (map content fs))\<rparr>)"
proof (induction fs arbitrary: self)
  case Nil
  then show ?case by simp
next
  case (Cons f fs)
  then have f: "file_ok fromiso mg f" and fs: "\<forall>f\<in>set fs. file_ok fromiso mg f"
    by simp_all
  show ?case
    by (simp add: parseFile_ok [OF f] Cons.IH [OF fs])
qed

lemma parseLogs_Inr_ok:
  "parseLogs fromiso mg self fs = Inr self' \<Longrightarrow> \<forall>f\<in>set fs. file_ok fromiso mg f"
proof (induction fs arbitrary: self)
  case Nil
  then show ?case by simp
next
  case (Cons f fs)
  then show ?case
    by (auto split: sum.splits dest: parseFile_Inr_file_ok)
qed

subsection \<open>The dictionary of entries\<close>

lemma map_of_setdefault:
  "map_of (setdefault d k v) n =
     (if n = k then Some (case map_of d k of None \<Rightarrow> v | Some w \<Rightarrow> w) else map_of d n)"
  by (auto simp: setdefault_def map_of_append map_add_def split: option.splits)

lemma keys_setdefault: "fst ` set (setdefault d k v) = insert k (fst ` set d)"
  by (auto simp: setdefault_def split: option.splits dest: map_of_SomeD)
     (metis fst_conv image_eqI map_of_SomeD weak_map_of_SomeI)

lemma distinct_setdefault:
  "distinct (map fst d) \<Longrightarrow> distinct (map fst (setdefault d k v))"
  by (auto simp: setdefault_def map_of_eq_None_iff split: option.splits)

lemma map_of_add_file:
  "map_of (add_file fromiso mg d f) n =
     (if n = name_of mg f
      then Some ((case map_of d n of None \<Rightarrow> [] | Some es \<Rightarrow> es) @ file_entries fromiso f)
      else map_of d n)"
  by (simp add: add_file_def AList.map_of_map_entry map_of_setdefault)

lemma keys_add_file: "fst ` set (add_file fromiso mg d f) = insert (name_of mg f) (fst ` set d)"
  by (simp add: add_file_def AList.dom_map_entry keys_setdefault)

lemma distinct_add_file:
  "distinct (map fst d) \<Longrightarrow> distinct (map fst (add_file fromiso mg d f))"
  by (simp add: add_file_def AList.distinct_map_entry distinct_setdefault)

lemma distinct_add_files:
  "distinct (map fst d) \<Longrightarrow> distinct (map fst (foldl (add_file fromiso mg) d fs))"
  by (induction fs arbitrary: d) (simp_all add: distinct_add_file)

lemma keys_add_files:
  "fst ` set (foldl (add_file fromiso mg) d fs) = fst ` set d \<union> name_of mg ` set fs"
  by (induction fs arbitrary: d) (auto simp: keys_add_file)

lemma map_of_add_files:
  "map_of (foldl (add_file fromiso mg) d fs) n =
     (case map_of d n of
        None \<Rightarrow>
          if n \<in> name_of mg ` set fs
          then Some (concat (map (file_entries fromiso) (filter (\<lambda>f. name_of mg f = n) fs)))
          else None
      | Some es \<Rightarrow>
          Some (es @ concat (map (file_entries fromiso) (filter (\<lambda>f. name_of mg f = n) fs))))"
proof (induction fs arbitrary: d)
  case Nil
  then show ?case by (simp split: option.splits)
next
  case (Cons f fs)
  show ?case
    by (auto simp: Cons.IH map_of_add_file split: option.splits)
qed

subsection \<open>The nodes\<close>

lemma processNodes_eq:
  "\<forall>(n, es)\<in>set d. \<not> isl (processNode es) \<Longrightarrow>
   processNodes self d =
     Inr (self\<lparr>nodeData :=
                 foldl (\<lambda>nd (n, es). AList.update n (projr (processNode es)) nd) (nodeData self) d\<rparr>)"
proof (induction self d rule: processNodes.induct)
  case (1 self)
  then show ?case by simp
next
  case (2 self name entries rest)
  from "2.prems" obtain nd where nd: "processNode entries = Inr nd"
    by (cases "processNode entries") auto
  from "2.prems" have rest: "\<forall>(n, es)\<in>set rest. \<not> isl (processNode es)" by simp
  show ?case
    by (simp add: nd "2.IH" [OF nd rest])
qed

lemma processNodes_Inr_ok:
  "processNodes self d = Inr self' \<Longrightarrow> \<forall>(n, es)\<in>set d. \<not> isl (processNode es)"
  by (induction self d rule: processNodes.induct) (auto split: sum.splits)

lemma map_of_update_nodes:
  "distinct (map fst d) \<Longrightarrow>
   map_of (foldl (\<lambda>nd (n, es). AList.update n (h es) nd) nd0 d) k =
     (case map_of d k of None \<Rightarrow> map_of nd0 k | Some es \<Rightarrow> Some (h es))"
proof (induction d arbitrary: nd0)
  case Nil
  then show ?case by simp
next
  case (Cons p d)
  obtain n es where p: "p = (n, es)" by (cases p)
  from Cons.prems have d: "distinct (map fst d)" and n: "n \<notin> fst ` set d"
    by (simp_all add: p)
  from n have none: "map_of d n = None"
    by (simp add: map_of_eq_None_iff)
  show ?case
    by (auto simp: p Cons.IH [OF d] AList.update_conv' none split: option.splits)
qed

subsection \<open>The time bounds\<close>

lemma update_timeBounds_Some:
  "update_timeBounds t (Some lo, Some hi) = (Some (min t lo), Some (max t hi))"
  by (auto simp: update_timeBounds_def min_def max_def)

lemma foldl_update_timeBounds_Some:
  "foldl (\<lambda>b t. update_timeBounds t b) (Some lo, Some hi) ts =
     (Some (Min (insert lo (set ts))), Some (Max (insert hi (set ts))))"
proof (induction ts arbitrary: lo hi)
  case Nil
  then show ?case by simp
next
  case (Cons t ts)
  have "Min (insert (min t lo) (set ts)) = Min (insert lo (insert t (set ts)))"
    by (cases "ts = []") (simp_all add: min.commute min.left_commute)
  moreover have "Max (insert (max t hi) (set ts)) = Max (insert hi (insert t (set ts)))"
    by (cases "ts = []") (simp_all add: max.commute max.left_commute)
  ultimately show ?case
    by (simp add: update_timeBounds_Some Cons.IH)
qed

lemma foldl_update_timeBounds_None:
  "foldl (\<lambda>b t. update_timeBounds t b) (None, None) ts =
     (if ts = [] then (None, None) else (Some (Min (set ts)), Some (Max (set ts))))"
proof (cases ts)
  case Nil
  then show ?thesis by simp
next
  case (Cons t ts')
  have "update_timeBounds t (None, None) = (Some t, Some t)"
    by (simp add: update_timeBounds_def)
  then show ?thesis
    by (simp add: Cons foldl_update_timeBounds_Some)
qed

subsection \<open>No file, no node\<close>

lemma getTime_not_nolog: "getTime fromiso l \<noteq> Inl Exception_No_log_entries"
  by (simp add: getTime_def split: list.splits option.splits)

lemma parseLines_not_nolog: "parseLines fromiso name sg ls \<noteq> Inl Exception_No_log_entries"
  using parseLines_err [of fromiso name sg ls Exception_No_log_entries] getTime_not_nolog
  by auto

lemma node_name_not_nolog: "node_name mg f \<noteq> Inl Exception_No_log_entries"
  by (simp add: node_name_def split: option.splits)

lemma parseFile_not_nolog: "parseFile fromiso mg self f \<noteq> Inl Exception_No_log_entries"
  using parseLines_not_nolog node_name_not_nolog [of mg f]
  by (auto simp: parseFile_def Let_def split: sum.splits prod.splits)

lemma parseLogs_not_nolog: "parseLogs fromiso mg self fs \<noteq> Inl Exception_No_log_entries"
  using parseFile_not_nolog
  by (induction fs arbitrary: self) (auto split: sum.splits)

lemma address_event_not_nolog: "address_event entry nd \<noteq> Inl Exception_No_log_entries"
  by (simp add: address_event_def Let_def split: option.splits)

lemma replayEntry_not_nolog: "replayEntry nh entry \<noteq> Inl Exception_No_log_entries"
  using address_event_not_nolog
  by (auto simp: replayEntry_def Let_def split: sum.splits prod.splits)

lemma replay_not_nolog: "replay nh es \<noteq> Inl Exception_No_log_entries"
  using replayEntry_not_nolog
  by (induction es arbitrary: nh) (auto split: sum.splits)

lemma processNode_not_nolog: "processNode es \<noteq> Inl Exception_No_log_entries"
  using replay_not_nolog
  by (auto simp: processNode_def split: sum.splits prod.splits)

lemma processNodes_not_nolog: "processNodes self d \<noteq> Inl Exception_No_log_entries"
  using processNode_not_nolog
  by (induction self d rule: processNodes.induct) (auto split: sum.splits)

lemma parseLogs_logEntries:
  assumes "parseLogs fromiso mg KeepalivedLogParser_init fs = Inr self"
  shows "logEntries self = foldl (add_file fromiso mg) [] fs"
  using assms parseLogs_eq [OF parseLogs_Inr_ok [OF assms], of KeepalivedLogParser_init]
  by (auto simp: KeepalivedLogParser_init_def)

lemma parseLogs_nonempty:
  assumes "parseLogs fromiso mg KeepalivedLogParser_init fs = Inr self" and "fs \<noteq> []"
  shows "logEntries self \<noteq> []"
proof
  assume "logEntries self = []"
  then have "fst ` set (foldl (add_file fromiso mg) [] fs) = {}"
    by (simp add: parseLogs_logEntries [OF assms(1)])
  with assms(2) show False by (simp add: keys_add_files)
qed

lemma findLogs_Nil_iff: "findLogs scanned = [] \<longleftrightarrow> scanned = []"
  by (metis findLogs_def length_sort length_0_conv)

text \<open>
  C1, as amended. \<^verbatim>\<open>processEntries\<close> raises \<^verbatim>\<open>Exception('No log entries')\<close> exactly
  when the dictionary of nodes is empty, and line 179 enters the node of every file
  before any of its lines is read: a run fails with this error exactly when no file
  was found. A run over at least one file never fails with it, whatever its lines
  match.
\<close>

theorem C1_no_log_entries_iff_no_file:
  "run fromiso mg scanned = Inl Exception_No_log_entries \<longleftrightarrow> scanned = []"
proof
  assume r: "run fromiso mg scanned = Inl Exception_No_log_entries"
  show "scanned = []"
  proof (rule ccontr)
    assume "scanned \<noteq> []"
    then have fne: "findLogs scanned \<noteq> []"
      by (simp add: findLogs_Nil_iff)
    from r obtain self
      where p: "parseLogs fromiso mg KeepalivedLogParser_init (findLogs scanned) = Inr self"
        and q: "processEntries self = Inl Exception_No_log_entries"
      using parseLogs_not_nolog by (auto simp: run_def parse_and_process_def split: sum.splits)
    from parseLogs_nonempty [OF p fne] q show False
      using processNodes_not_nolog by (auto simp: processEntries_def split: if_splits)
  qed
next
  assume "scanned = []"
  then show "run fromiso mg scanned = Inl Exception_No_log_entries"
    by (simp add: run_def parse_and_process_def findLogs_def processEntries_def KeepalivedLogParser_init_def)
qed

text \<open>
  C1 as stated fails: one file whose only line matches no pattern. No node has an
  entry, and the run succeeds with the node's empty record.
\<close>

theorem C1_counterexample:
  "run iso_sample False
     [\<lparr>parts = [''logs'', ''node1.log''], content = [''2023-01-01T00:00:00 hello'']\<rparr>] =
   Inr \<lparr>logEntries = [(''node1.log'', [])],
        nodeData = [(''node1.log'', \<lparr>vipChanges = [[], [], [], []], events = [], addrs = {}\<rparr>)],
        timeBounds = (Some 1672531200000000, Some 1672531200000000),
        vips = [[], [], [], []]\<rparr>"
  by code_simp

theorem C1_witness:
  "run iso_sample False [] = Inl Exception_No_log_entries \<and>
   run iso_sample False
     [\<lparr>parts = [''logs'', ''node1.log''], content = [''2023-01-01T00:00:00 hello'']\<rparr>] \<noteq>
   Inl Exception_No_log_entries"
  using C1_no_log_entries_iff_no_file [of iso_sample False "[]"]
    C1_no_log_entries_iff_no_file [of iso_sample False
      "[\<lparr>parts = [''logs'', ''node1.log''], content = [''2023-01-01T00:00:00 hello'']\<rparr>]"]
  by simp

subsection \<open>The state after a run\<close>

lemma parse_and_process_InrD:
  assumes "parse_and_process fromiso mg fs = Inr self"
  shows "\<forall>f\<in>set fs. file_ok fromiso mg f"
    and "logEntries self = foldl (add_file fromiso mg) [] fs"
    and "timeBounds self =
           foldl (\<lambda>b t. update_timeBounds t b) (None, None)
             (map (time_of fromiso) (concat (map content fs)))"
    and "vips self = foldl line_vips [[], [], [], []] (concat (map content fs))"
    and "\<forall>(n, es)\<in>set (logEntries self). \<not> isl (processNode es)"
    and "nodeData self =
           foldl (\<lambda>nd (n, es). AList.update n (projr (processNode es)) nd) [] (logEntries self)"
proof -
  from assms obtain s0
    where p: "parseLogs fromiso mg KeepalivedLogParser_init fs = Inr s0"
      and q: "processEntries s0 = Inr self"
    by (auto simp: parse_and_process_def split: sum.splits)
  from parseLogs_Inr_ok [OF p] show ok: "\<forall>f\<in>set fs. file_ok fromiso mg f" .
  from p have s0: "s0 = \<lparr>logEntries = foldl (add_file fromiso mg) [] fs,
      nodeData = [],
      timeBounds = foldl (\<lambda>b t. update_timeBounds t b) (None, None)
             (map (time_of fromiso) (concat (map content fs))),
      vips = foldl line_vips [[], [], [], []] (concat (map content fs))\<rparr>"
    by (simp add: parseLogs_eq [OF ok] KeepalivedLogParser_init_def)
  from q have pn: "processNodes s0 (logEntries s0) = Inr self"
    by (simp add: processEntries_def split: if_splits)
  note nodes_ok = processNodes_Inr_ok [OF pn]
  from pn have self: "self = s0\<lparr>nodeData :=
      foldl (\<lambda>nd (n, es). AList.update n (projr (processNode es)) nd) (nodeData s0) (logEntries s0)\<rparr>"
    by (simp add: processNodes_eq [OF nodes_ok])
  show "logEntries self = foldl (add_file fromiso mg) [] fs"
    by (subst self) (simp add: s0)
  then have le: "logEntries self = logEntries s0" by (simp add: s0)
  show "timeBounds self =
           foldl (\<lambda>b t. update_timeBounds t b) (None, None)
             (map (time_of fromiso) (concat (map content fs)))"
    by (subst self) (simp add: s0)
  show "vips self = foldl line_vips [[], [], [], []] (concat (map content fs))"
    by (subst self) (simp add: s0)
  show "\<forall>(n, es)\<in>set (logEntries self). \<not> isl (processNode es)"
    using nodes_ok by (simp add: le)
  show "nodeData self =
           foldl (\<lambda>nd (n, es). AList.update n (projr (processNode es)) nd) [] (logEntries self)"
    by (subst self) (simp add: le, simp add: s0)
qed

lemma run_InrD:
  assumes "run fromiso mg scanned = Inr self"
  shows "\<forall>f\<in>set (findLogs scanned). file_ok fromiso mg f"
    and "logEntries self = foldl (add_file fromiso mg) [] (findLogs scanned)"
    and "timeBounds self =
           foldl (\<lambda>b t. update_timeBounds t b) (None, None)
             (map (time_of fromiso) (concat (map content (findLogs scanned))))"
    and "vips self = foldl line_vips [[], [], [], []] (concat (map content (findLogs scanned)))"
    and "\<forall>(n, es)\<in>set (logEntries self). \<not> isl (processNode es)"
    and "nodeData self =
           foldl (\<lambda>nd (n, es). AList.update n (projr (processNode es)) nd) [] (logEntries self)"
  using parse_and_process_InrD [of fromiso mg "findLogs scanned" self] assms
  by (simp_all add: run_def)

lemma set_findLogs: "set (findLogs scanned) = set scanned"
  by (simp add: findLogs_def)

lemma getTime_time_of: "\<not> isl (getTime fromiso l) \<Longrightarrow> getTime fromiso l = Inr (time_of fromiso l)"
  by (cases "getTime fromiso l") (simp_all add: time_of_def)

text \<open>
  C7. After a run that succeeds, \<^verbatim>\<open>timeBounds\<close> holds the least and the greatest of
  the timestamps \<^verbatim>\<open>getTime\<close> returns for the lines of all files, whether a line
  matches a pattern or not (and \<^verbatim>\<open>None\<close> twice when there is no line at all).
\<close>

theorem C7_timeBounds_min_max:
  assumes "run fromiso mg scanned = Inr self"
  shows "\<exists>ts. map (getTime fromiso) (concat (map content scanned)) = map Inr ts \<and>
           timeBounds self =
             (if ts = [] then (None, None) else (Some (Min (set ts)), Some (Max (set ts))))"
proof -
  let ?ts = "\<lambda>fs. map (time_of fromiso) (concat (map content fs))"
  from run_InrD(1) [OF assms] have ok: "\<forall>f\<in>set scanned. file_ok fromiso mg f"
    by (simp add: set_findLogs)
  have "map (getTime fromiso) (concat (map content scanned)) = map Inr (?ts scanned)"
    using ok by (auto simp: file_ok_iff getTime_time_of)
  moreover have "set (?ts (findLogs scanned)) = set (?ts scanned)"
    by (simp add: set_findLogs)
  moreover have "?ts (findLogs scanned) = [] \<longleftrightarrow> ?ts scanned = []"
    by (simp add: set_findLogs)
  ultimately show ?thesis
    using run_InrD(3) [OF assms]
    by (intro exI [of _ "?ts scanned"]) (simp add: foldl_update_timeBounds_None del: map_concat)
qed

theorem C7_witness:
  "\<exists>self ts.
     run iso_sample False
       [\<lparr>parts = [''logs'', ''node1.log''],
         content = [''2023-01-01T00:05:00 (VI_1) Entering MASTER STATE'',
                    ''2023-01-01T00:00:00 hello'']\<rparr>] = Inr self \<and>
     map (getTime iso_sample)
       [''2023-01-01T00:05:00 (VI_1) Entering MASTER STATE'', ''2023-01-01T00:00:00 hello''] =
       map Inr ts \<and>
     ts = [1672531500000000, 1672531200000000] \<and>
     timeBounds self = (Some 1672531200000000, Some 1672531500000000)"
proof -
  have r: "run iso_sample False
       [\<lparr>parts = [''logs'', ''node1.log''],
         content = [''2023-01-01T00:05:00 (VI_1) Entering MASTER STATE'',
                    ''2023-01-01T00:00:00 hello'']\<rparr>] =
     Inr \<lparr>logEntries = [(''node1.log'',
             [\<lparr>timestamp = 1672531500000000,
               line = ''2023-01-01T00:05:00 (VI_1) Entering MASTER STATE'',
               event = tookVip, vip = 0\<rparr>])],
          nodeData = [(''node1.log'',
             \<lparr>vipChanges = [[1672531500000000], [], [], []], events = [], addrs = {}\<rparr>)],
          timeBounds = (Some 1672531200000000, Some 1672531500000000),
          vips = [[], [], [], []]\<rparr>"
    by code_simp
  have g: "map (getTime iso_sample)
       [''2023-01-01T00:05:00 (VI_1) Entering MASTER STATE'', ''2023-01-01T00:00:00 hello''] =
       map Inr [1672531500000000, 1672531200000000]"
    by code_simp
  from C7_timeBounds_min_max [OF r] g show ?thesis
    by (simp add: r)
qed

subsection \<open>The VIP labels\<close>

lemma length_line_vips: "length (line_vips vs l) = length vs"
  by (simp add: line_vips_def)

lemma length_foldl_line_vips: "length (foldl line_vips vs ls) = length vs"
  by (induction ls arbitrary: vs) (simp_all add: length_line_vips)

lemma line_vips_nth:
  "slot < length vs \<Longrightarrow>
   line_vips vs l ! slot = (if is_arp l \<and> slot_of l = slot then last (split l) else vs ! slot)"
  by (simp add: line_vips_def nth_list_update)

lemma foldl_line_vips_nth:
  "slot < length vs \<Longrightarrow>
   foldl line_vips vs ls ! slot =
     (let arps = filter (\<lambda>l. is_arp l \<and> slot_of l = slot) ls
      in if arps = [] then vs ! slot else last (split (last arps)))"
proof (induction ls rule: rev_induct)
  case Nil
  then show ?case by simp
next
  case (snoc l ls)
  then show ?case
    by (simp add: line_vips_nth Let_def length_foldl_line_vips)
qed

text \<open>
  C4, as amended. The label of a slot is the last token of the ARP or Neighbour Advert
  line of that slot that was parsed last (the files in the order of their paths, the
  lines in the order of the file), whatever the timestamps; it is empty when no such
  line exists.
\<close>

theorem C4_vips_last_parsed:
  assumes "run fromiso mg scanned = Inr self" and "slot < 4"
  shows "vips self ! slot =
     (let arps = filter (\<lambda>l. is_arp l \<and> slot_of l = slot)
                   (concat (map content (findLogs scanned)))
      in if arps = [] then [] else last (split (last arps)))"
proof -
  have "[[], [], [], []] ! slot = ([] :: string)"
    using assms(2) by (auto simp: nth_Cons split: nat.splits)
  then show ?thesis
    using assms(2)
    by (simp add: run_InrD(4) [OF assms(1)] foldl_line_vips_nth Let_def del: map_concat)
qed

text \<open>
  C4 as stated fails: the line of \<^verbatim>\<open>a.log\<close> has the later timestamp, and the label of
  slot 0 is the address of the line of \<^verbatim>\<open>b.log\<close>, which is parsed after it.
\<close>

theorem C4_counterexample:
  "run iso_sample False
     [\<lparr>parts = [''logs'', ''a.log''],
       content = [''2023-01-01T00:05:00 (ostest_API_0) Sending/queueing gratuitous ARPs on br-ex for 192.0.2.10'']\<rparr>,
      \<lparr>parts = [''logs'', ''b.log''],
       content = [''2023-01-01T00:00:00 (ostest_API_0) Sending/queueing gratuitous ARPs on br-ex for 192.0.2.20'']\<rparr>] =
   Inr \<lparr>logEntries =
          [(''a.log'',
            [\<lparr>timestamp = 1672531500000000,
              line = ''2023-01-01T00:05:00 (ostest_API_0) Sending/queueing gratuitous ARPs on br-ex for 192.0.2.10'',
              event = tookVip, vip = 0\<rparr>]),
           (''b.log'',
            [\<lparr>timestamp = 1672531200000000,
              line = ''2023-01-01T00:00:00 (ostest_API_0) Sending/queueing gratuitous ARPs on br-ex for 192.0.2.20'',
              event = tookVip, vip = 0\<rparr>])],
        nodeData =
          [(''a.log'', \<lparr>vipChanges = [[1672531500000000], [], [], []], events = [], addrs = {}\<rparr>),
           (''b.log'', \<lparr>vipChanges = [[1672531200000000], [], [], []], events = [], addrs = {}\<rparr>)],
        timeBounds = (Some 1672531200000000, Some 1672531500000000),
        vips = [''192.0.2.20'', [], [], []]\<rparr>"
  by code_simp

theorem C4_witness:
  "\<exists>self.
     run iso_sample False
       [\<lparr>parts = [''logs'', ''b.log''],
         content = [''2023-01-01T00:00:00 (ostest_API_0) Sending/queueing gratuitous ARPs on br-ex for 192.0.2.20'']\<rparr>,
        \<lparr>parts = [''logs'', ''a.log''],
         content = [''2023-01-01T00:05:00 (ostest_API_0) Sending/queueing gratuitous ARPs on br-ex for 192.0.2.10'']\<rparr>] = Inr self \<and>
     vips self ! 0 = ''192.0.2.20'' \<and> vips self ! 1 = []"
proof -
  let ?a = "\<lparr>parts = [''logs'', ''a.log''],
         content = [''2023-01-01T00:05:00 (ostest_API_0) Sending/queueing gratuitous ARPs on br-ex for 192.0.2.10'']\<rparr>"
  let ?b = "\<lparr>parts = [''logs'', ''b.log''],
         content = [''2023-01-01T00:00:00 (ostest_API_0) Sending/queueing gratuitous ARPs on br-ex for 192.0.2.20'']\<rparr>"
  have "\<not> isl (run iso_sample False [?b, ?a])"
    by code_simp
  then obtain self where r: "run iso_sample False [?b, ?a] = Inr self"
    by (cases "run iso_sample False [?b, ?a]") auto
  have f: "findLogs [?b, ?a] = [?a, ?b]"
    by code_simp
  have s: "slot_of (hd (content ?a)) = 0" "slot_of (hd (content ?b)) = 0"
    "is_arp (hd (content ?a))" "is_arp (hd (content ?b))"
    "last (split (hd (content ?b))) = ''192.0.2.20''"
    by code_simp+
  from C4_vips_last_parsed [OF r, of 0] C4_vips_last_parsed [OF r, of 1] s show ?thesis
    by (simp add: r f)
qed

text \<open>
  C10. A gratuitous ARP or Neighbour Advert line always writes its last token into the
  label of its slot, whatever the flag \<^verbatim>\<open>gratuitousArp\<close> of the slot says; the flag
  only decides whether the ARP block appends its \<^verbatim>\<open>tookVip\<close> entry.
\<close>

theorem C10_label_unconditional:
  assumes "is_arp l" and "parseLine fromiso name (self, g) l = Inr (self', g')"
    and "length (vips self) = 4"
  shows "vips self' = (vips self)[slot_of l := last (split l)] \<and>
         vips self' ! slot_of l = last (split l) \<and>
         (\<exists>t. getTime fromiso l = Inr t \<and>
           logEntries self' =
             AList.map_entry name
               (\<lambda>es. es @ script_entries t l @
                  (if g ! slot_of l then []
                   else [\<lparr>timestamp = t, line = l, event = tookVip, vip = slot_of l\<rparr>]) @
                  master_entries t l @ backup_entries t l @ reload_entries t l @
                  assigned_entries t l)
               (logEntries self))"
proof (cases "getTime fromiso l")
  case (Inl e)
  with assms(2) show ?thesis by (simp add: parseLine_err)
next
  case (Inr t)
  from assms(2) have self': "self' =
      self\<lparr>logEntries := AList.map_entry name (\<lambda>es. es @ line_entries g t l) (logEntries self),
           timeBounds := update_timeBounds t (timeBounds self),
           vips := line_vips (vips self) l\<rparr>"
    by (simp add: parseLine_eq [OF Inr])
  have v: "vips self' = (vips self)[slot_of l := last (split l)]"
    using assms(1) by (simp add: self' line_vips_def)
  have a: "arp_entries g t l =
      (if g ! slot_of l then []
       else [\<lparr>timestamp = t, line = l, event = tookVip, vip = slot_of l\<rparr>])"
    using assms(1) by (simp add: arp_entries_def)
  have e: "logEntries self' =
      AList.map_entry name (\<lambda>es. es @ line_entries g t l) (logEntries self)"
    by (simp add: self')
  show ?thesis
    using slot_of_less [of l] assms(3)
    by (simp add: v Inr e line_entries_def a)
qed

theorem C10_witness:
  "is_arp ''2023-01-01T00:00:00 (ostest_API_0) Sending/queueing gratuitous ARPs on br-ex for 192.0.2.20'' \<and>
   parseLine iso_sample ''node1''
     (\<lparr>logEntries = [(''node1'', [])], nodeData = [], timeBounds = (None, None),
       vips = [''192.0.2.10'', [], [], []]\<rparr>, [True, False, False, False])
     ''2023-01-01T00:00:00 (ostest_API_0) Sending/queueing gratuitous ARPs on br-ex for 192.0.2.20'' =
   Inr (\<lparr>logEntries = [(''node1'', [])], nodeData = [],
         timeBounds = (Some 1672531200000000, Some 1672531200000000),
         vips = [''192.0.2.20'', [], [], []]\<rparr>, [True, False, False, False]) \<and>
   vips \<lparr>logEntries = [(''node1'', [])], nodeData = [],
         timeBounds = (Some 1672531200000000, Some 1672531200000000),
         vips = [''192.0.2.20'', [], [], []]\<rparr> ! 0 =
   last (split ''2023-01-01T00:00:00 (ostest_API_0) Sending/queueing gratuitous ARPs on br-ex for 192.0.2.20'')"
proof -
  let ?l = "''2023-01-01T00:00:00 (ostest_API_0) Sending/queueing gratuitous ARPs on br-ex for 192.0.2.20''"
  have a: "is_arp ?l"
    by code_simp
  have s: "slot_of ?l = 0"
    by code_simp
  have p: "parseLine iso_sample ''node1''
     (\<lparr>logEntries = [(''node1'', [])], nodeData = [], timeBounds = (None, None),
       vips = [''192.0.2.10'', [], [], []]\<rparr>, [True, False, False, False]) ?l =
   Inr (\<lparr>logEntries = [(''node1'', [])], nodeData = [],
         timeBounds = (Some 1672531200000000, Some 1672531200000000),
         vips = [''192.0.2.20'', [], [], []]\<rparr>, [True, False, False, False])"
    by code_simp
  from C10_label_unconditional [OF a p] a p s show ?thesis
    by simp
qed

subsection \<open>The records of the nodes\<close>

lemma line_entries_unrecognized: "\<not> recognized l \<Longrightarrow> line_entries g t l = []"
  by (simp add: recognized_def line_entries_def script_entries_def arp_entries_def
      master_entries_def backup_entries_def reload_entries_def assigned_entries_def)

lemma lines_entries_unrecognized:
  "\<forall>l\<in>set ls. \<not> recognized l \<Longrightarrow> lines_entries fromiso g ls = []"
  by (induction ls arbitrary: g) (simp_all add: line_entries_unrecognized)

lemma processNode_Nil: "processNode [] = Inr NodeData_init"
  by (simp add: processNode_def)

lemma run_logEntries_distinct:
  assumes "run fromiso mg scanned = Inr self"
  shows "distinct (map fst (logEntries self))"
  by (simp add: run_InrD(2) [OF assms] distinct_add_files)

lemma run_map_of_logEntries:
  assumes "run fromiso mg scanned = Inr self"
  shows "map_of (logEntries self) n =
     (if n \<in> name_of mg ` set scanned
      then Some (concat (map (file_entries fromiso)
                   (filter (\<lambda>f. name_of mg f = n) (findLogs scanned))))
      else None)"
  by (simp add: run_InrD(2) [OF assms] map_of_add_files set_findLogs)

lemma run_map_of_nodeData:
  assumes "run fromiso mg scanned = Inr self"
  shows "map_of (nodeData self) n =
     (case map_of (logEntries self) n of
        None \<Rightarrow> None
      | Some es \<Rightarrow> Some (projr (processNode es)))"
  by (subst run_InrD(6) [OF assms])
     (simp add: map_of_update_nodes [OF run_logEntries_distinct [OF assms]] split: option.splits)

text \<open>
  C9. After a run that succeeds, the node of every file has a record in \<^verbatim>\<open>nodeData\<close>;
  when no line of the files of that node is recognized, the record is the one
  \<^verbatim>\<open>NodeData()\<close> builds: four empty lists of boundaries, no event, no address.
\<close>

theorem C9_every_file_has_a_node:
  assumes "run fromiso mg scanned = Inr self" and "f \<in> set scanned"
    and "node_name mg f = Inr n"
  shows "\<exists>nd. map_of (nodeData self) n = Some nd \<and>
           ((\<forall>g\<in>set scanned. node_name mg g = Inr n \<longrightarrow> (\<forall>l\<in>set (content g). \<not> recognized l))
            \<longrightarrow> nd = \<lparr>vipChanges = [[], [], [], []], events = [], addrs = {}\<rparr>)"
proof -
  let ?fs = "filter (\<lambda>f. name_of mg f = n) (findLogs scanned)"
  let ?es = "concat (map (file_entries fromiso) ?fs)"
  from assms(2,3) have n: "n \<in> name_of mg ` set scanned"
    by (force simp: name_of_eq)
  then have le: "map_of (logEntries self) n = Some ?es"
    by (simp add: run_map_of_logEntries [OF assms(1)])
  then have nd: "map_of (nodeData self) n = Some (projr (processNode ?es))"
    by (simp add: run_map_of_nodeData [OF assms(1)])
  have "projr (processNode ?es) = NodeData_init"
    if un: "\<forall>g\<in>set scanned. node_name mg g = Inr n \<longrightarrow> (\<forall>l\<in>set (content g). \<not> recognized l)"
  proof -
    have "file_entries fromiso g = []" if g: "g \<in> set ?fs" for g
    proof -
      from g have gs: "g \<in> set scanned" and gn: "name_of mg g = n"
        by (simp_all add: set_findLogs)
      from run_InrD(1) [OF assms(1)] gs have "\<not> isl (node_name mg g)"
        by (simp add: set_findLogs file_ok_iff)
      with gn have "node_name mg g = Inr n"
        by (cases "node_name mg g") (simp_all add: name_of_def)
      with un gs have "\<forall>l\<in>set (content g). \<not> recognized l" by blast
      then show ?thesis
        by (simp add: file_entries_def lines_entries_unrecognized)
    qed
    then have "?es = []" by (simp del: set_filter)
    then show ?thesis by (simp only: processNode_Nil sum.sel)
  qed
  with nd show ?thesis
    by (simp add: NodeData_init_def)
qed

theorem C9_witness:
  "\<exists>self nd.
     run iso_sample False
       [\<lparr>parts = [''logs'', ''node1.log''], content = [''2023-01-01T00:00:00 hello'']\<rparr>] =
       Inr self \<and>
     node_name False \<lparr>parts = [''logs'', ''node1.log''], content = [''2023-01-01T00:00:00 hello'']\<rparr> =
       Inr ''node1.log'' \<and>
     \<not> recognized ''2023-01-01T00:00:00 hello'' \<and>
     map_of (nodeData self) ''node1.log'' = Some nd \<and>
     nd = \<lparr>vipChanges = [[], [], [], []], events = [], addrs = {}\<rparr>"
proof -
  let ?f = "\<lparr>parts = [''logs'', ''node1.log''], content = [''2023-01-01T00:00:00 hello'']\<rparr>"
  have "\<not> isl (run iso_sample False [?f])"
    by code_simp
  then obtain self where r: "run iso_sample False [?f] = Inr self"
    by (cases "run iso_sample False [?f]") auto
  have n: "node_name False ?f = Inr ''node1.log''"
    by code_simp
  have u: "\<not> recognized ''2023-01-01T00:00:00 hello''"
    by code_simp
  from C9_every_file_has_a_node [OF r _ n] u show ?thesis
    by (simp add: r n)
qed

subsection \<open>A line without a timestamp\<close>

lemma parseLines_append:
  "parseLines fromiso name sg (xs @ ys) =
     (case parseLines fromiso name sg xs of
        Inl e \<Rightarrow> Inl e
      | Inr sg' \<Rightarrow> parseLines fromiso name sg' ys)"
  by (induction xs arbitrary: sg) (simp_all split: sum.splits)

lemma parseLogs_append:
  "parseLogs fromiso mg self (xs @ ys) =
     (case parseLogs fromiso mg self xs of
        Inl e \<Rightarrow> Inl e
      | Inr self' \<Rightarrow> parseLogs fromiso mg self' ys)"
  by (induction xs arbitrary: self) (simp_all split: sum.splits)

lemma parseLines_first_error:
  assumes "\<forall>k\<in>set before. \<not> isl (getTime fromiso k)" and "getTime fromiso l = Inl e"
  shows "parseLines fromiso name sg (before @ l # after) = Inl e"
proof -
  obtain self g where sg: "sg = (self, g)" by (cases sg)
  show ?thesis
    by (simp add: parseLines_append sg parseLines_eq [OF assms(1)] parseLine_err [OF assms(2)])
qed

lemma parseFile_first_error:
  assumes "\<not> isl (node_name mg f)" and "content f = before @ l # after"
    and "\<forall>k\<in>set before. \<not> isl (getTime fromiso k)" and "getTime fromiso l = Inl e"
  shows "parseFile fromiso mg self f = Inl e"
proof -
  from assms(1) obtain n where n: "node_name mg f = Inr n"
    by (cases "node_name mg f") auto
  show ?thesis
    by (simp add: parseFile_def n assms(2) parseLines_first_error [OF assms(3,4)])
qed

lemma parseLogs_first_error:
  assumes "\<forall>g\<in>set pre. file_ok fromiso mg g" and "parseFile fromiso mg self' f = Inl e"
    and "parseLogs fromiso mg self pre = Inr self'"
  shows "parseLogs fromiso mg self (pre @ f # post) = Inl e"
  by (simp add: parseLogs_append assms(2,3))

text \<open>
  C8. When the first token of a line is not a timestamp, \<^verbatim>\<open>getTime\<close> raises the
  \<^verbatim>\<open>ValueError\<close> of \<^verbatim>\<open>fromisoformat\<close>. No run over a file that holds such a line
  returns a result; and when everything parsed before the line was well formed, the
  error of the run is this one.
\<close>

theorem C8_malformed_timestamp_aborts:
  assumes "split l = tok # rest" and "fromiso tok = None"
  shows "getTime fromiso l = Inl ValueError_isoformat \<and>
         (\<forall>f\<in>set scanned. l \<in> set (content f) \<longrightarrow> isl (run fromiso mg scanned)) \<and>
         (findLogs scanned = pre @ f # post \<and> (\<forall>g\<in>set pre. file_ok fromiso mg g) \<and>
          \<not> isl (node_name mg f) \<and> content f = before @ l # after \<and>
          (\<forall>k\<in>set before. \<not> isl (getTime fromiso k))
          \<longrightarrow> run fromiso mg scanned = Inl ValueError_isoformat)"
proof (intro conjI ballI impI)
  show bad: "getTime fromiso l = Inl ValueError_isoformat"
    by (simp add: getTime_def assms)
  show "isl (run fromiso mg scanned)" if "f \<in> set scanned" and "l \<in> set (content f)" for f
  proof (rule ccontr)
    assume "\<not> isl (run fromiso mg scanned)"
    then obtain self where r: "run fromiso mg scanned = Inr self"
      by (cases "run fromiso mg scanned") auto
    from run_InrD(1) [OF r] that have "\<not> isl (getTime fromiso l)"
      by (auto simp: set_findLogs file_ok_iff)
    with bad show False by simp
  qed
  show "run fromiso mg scanned = Inl ValueError_isoformat"
    if h: "findLogs scanned = pre @ f # post \<and> (\<forall>g\<in>set pre. file_ok fromiso mg g) \<and>
          \<not> isl (node_name mg f) \<and> content f = before @ l # after \<and>
          (\<forall>k\<in>set before. \<not> isl (getTime fromiso k))"
  proof -
    from h have pre: "\<forall>g\<in>set pre. file_ok fromiso mg g" by simp
    obtain s1 where s1: "parseLogs fromiso mg KeepalivedLogParser_init pre = Inr s1"
      by (simp add: parseLogs_eq [OF pre])
    have "parseFile fromiso mg s1 f = Inl ValueError_isoformat"
      using h bad by (intro parseFile_first_error [of mg f before l after]) simp_all
    from parseLogs_first_error [OF pre this s1] h show ?thesis
      by (simp add: run_def parse_and_process_def)
  qed
qed

theorem C8_witness:
  "split ''Jan 01 00:05:00 (VI_1) Entering MASTER STATE'' =
     [''Jan'', ''01'', ''00:05:00'', ''(VI_1)'', ''Entering'', ''MASTER'', ''STATE''] \<and>
   iso_sample ''Jan'' = None \<and>
   getTime iso_sample ''Jan 01 00:05:00 (VI_1) Entering MASTER STATE'' = Inl ValueError_isoformat \<and>
   run iso_sample False
     [\<lparr>parts = [''logs'', ''node1.log''],
       content = [''2023-01-01T00:00:00 hello'',
                  ''Jan 01 00:05:00 (VI_1) Entering MASTER STATE'',
                  ''2023-01-01T00:05:00 (VI_1) Entering BACKUP STATE'']\<rparr>] =
     Inl ValueError_isoformat"
proof -
  let ?l = "''Jan 01 00:05:00 (VI_1) Entering MASTER STATE''"
  let ?f = "\<lparr>parts = [''logs'', ''node1.log''],
       content = [''2023-01-01T00:00:00 hello'', ?l,
                  ''2023-01-01T00:05:00 (VI_1) Entering BACKUP STATE'']\<rparr>"
  have s: "split ?l = [''Jan'', ''01'', ''00:05:00'', ''(VI_1)'', ''Entering'', ''MASTER'', ''STATE'']"
    by code_simp
  then have s': "split ?l = ''Jan'' # [''01'', ''00:05:00'', ''(VI_1)'', ''Entering'', ''MASTER'', ''STATE'']" .
  have i: "iso_sample ''Jan'' = None"
    by code_simp
  have fl: "findLogs [?f] = [] @ ?f # []"
    by (simp add: findLogs_def)
  have n: "\<not> isl (node_name False ?f)"
    by code_simp
  have c: "content ?f = [''2023-01-01T00:00:00 hello''] @ ?l #
             [''2023-01-01T00:05:00 (VI_1) Entering BACKUP STATE'']"
    by simp
  have b: "\<forall>k\<in>set [''2023-01-01T00:00:00 hello'']. \<not> isl (getTime iso_sample k)"
    by code_simp
  from C8_malformed_timestamp_aborts [where l = ?l and tok = "''Jan''"
      and rest = "[''01'', ''00:05:00'', ''(VI_1)'', ''Entering'', ''MASTER'', ''STATE'']"
      and fromiso = iso_sample and scanned = "[?f]" and mg = False and pre = "[]" and f = ?f
      and post = "[]" and before = "[''2023-01-01T00:00:00 hello'']"
      and after = "[''2023-01-01T00:05:00 (VI_1) Entering BACKUP STATE'']", OF s' i]
    fl n c b
  show ?thesis
    by (simp only: s i simp_thms list.set empty_iff ball_simps)
qed

subsection \<open>The flags of one file\<close>

lemma length_line_garp: "length (line_garp g l) = length g"
  by (simp add: line_garp_def)

lemma length_foldl_line_garp: "length (foldl line_garp g ls) = length g"
  by (induction ls arbitrary: g) (simp_all add: length_line_garp)

lemma line_garp_mono: "s < length g \<Longrightarrow> g ! s \<Longrightarrow> line_garp g l ! s"
  by (cases "slot_of l = s") (auto simp: line_garp_def)

lemma foldl_line_garp_mono: "s < length g \<Longrightarrow> g ! s \<Longrightarrow> foldl line_garp g ls ! s"
  by (induction ls arbitrary: g) (simp_all add: line_garp_mono length_line_garp)

lemma line_garp_sets:
  "slot_of l < length g \<Longrightarrow> is_arp l \<or> is_master l \<Longrightarrow> line_garp g l ! slot_of l"
  by (auto simp: line_garp_def)

lemma lines_entries_append:
  "lines_entries fromiso g (xs @ ys) =
     lines_entries fromiso g xs @ lines_entries fromiso (foldl line_garp g xs) ys"
  by (induction xs arbitrary: g) simp_all

lemma took_entry_cases:
  assumes "e \<in> set (line_entries g t l)" and "event e = tookVip"
  shows "(is_arp l \<or> is_master l) \<and> vip e = slot_of l"
  using assms
  by (auto simp: line_entries_def script_entries_def arp_entries_def master_entries_def
      backup_entries_def reload_entries_def assigned_entries_def split: if_splits)

lemma arp_emitted_count:
  "length g = 4 \<Longrightarrow> slot < 4 \<Longrightarrow>
   length (filter (\<lambda>e. vip e = slot) (arp_emitted fromiso g ls)) \<le> (if g ! slot then 0 else 1)"
proof (induction ls arbitrary: g)
  case Nil
  then show ?case by simp
next
  case (Cons l ls)
  let ?g = "line_garp g l"
  have len: "length ?g = 4" using Cons.prems(1) by (simp add: length_line_garp)
  note IH = Cons.IH [OF len Cons.prems(2)]
  show ?case
  proof (cases "is_arp l \<and> \<not> g ! slot_of l \<and> slot_of l = slot")
    case True
    then have "?g ! slot"
      using line_garp_sets [of l g] Cons.prems by auto
    with IH True show ?thesis
      by (simp add: arp_entries_def)
  next
    case False
    then have none: "filter (\<lambda>e. vip e = slot) (arp_entries g (time_of fromiso l) l) = []"
      by (auto simp: arp_entries_def)
    show ?thesis
    proof (cases "g ! slot")
      case True
      then have "?g ! slot"
        using line_garp_mono [of slot g l] Cons.prems by simp
      with IH none True show ?thesis by simp
    next
      case False
      with IH none show ?thesis by (simp split: if_splits)
    qed
  qed
qed

text \<open>
  C5. The entries a file adds to its node are those of its lines read from flags that
  are all unset, whatever the parser holds from earlier files. Over one file the ARP
  block appends at most one entry for a slot; and once a line of the file has appended
  a \<^verbatim>\<open>tookVip\<close> entry for a slot, from its ARP block or from its \<^verbatim>\<open>MASTER STATE\<close>
  block, the ARP block appends nothing for any later line of that slot.
\<close>

theorem C5_first_arp_per_slot_and_file:
  assumes "parseFile fromiso mg self f = Inr self'" and "slot < 4"
  shows "logEntries self' =
           AList.map_entry (name_of mg f)
             (\<lambda>es. es @ lines_entries fromiso [False, False, False, False] (content f))
             (setdefault (logEntries self) (name_of mg f) []) \<and>
         (\<forall>before l after. content f = before @ l # after \<longrightarrow>
            lines_entries fromiso [False, False, False, False] (content f) =
              lines_entries fromiso [False, False, False, False] before @
              line_entries (foldl line_garp [False, False, False, False] before)
                (time_of fromiso l) l @
              lines_entries fromiso (foldl line_garp [False, False, False, False] (before @ [l]))
                after) \<and>
         length (filter (\<lambda>e. vip e = slot)
                   (arp_emitted fromiso [False, False, False, False] (content f))) \<le> 1 \<and>
         (\<forall>ls1 l1 ls2 l2 ls3 e.
            content f = ls1 @ l1 # ls2 @ l2 # ls3 \<and>
            e \<in> set (line_entries (foldl line_garp [False, False, False, False] ls1)
                       (time_of fromiso l1) l1) \<and>
            event e = tookVip \<and> vip e = slot \<and> is_arp l2 \<and> slot_of l2 = slot \<longrightarrow>
            arp_entries (foldl line_garp [False, False, False, False] (ls1 @ l1 # ls2))
              (time_of fromiso l2) l2 = [])"
proof (intro conjI allI impI)
  from parseFile_Inr_file_ok [OF assms(1)] have ok: "file_ok fromiso mg f" .
  from assms(1) show "logEntries self' =
           AList.map_entry (name_of mg f)
             (\<lambda>es. es @ lines_entries fromiso [False, False, False, False] (content f))
             (setdefault (logEntries self) (name_of mg f) [])"
    by (auto simp: parseFile_ok [OF ok] add_file_def file_entries_def)
next
  fix before l after
  assume "content f = before @ l # after"
  then show "lines_entries fromiso [False, False, False, False] (content f) =
              lines_entries fromiso [False, False, False, False] before @
              line_entries (foldl line_garp [False, False, False, False] before)
                (time_of fromiso l) l @
              lines_entries fromiso (foldl line_garp [False, False, False, False] (before @ [l]))
                after"
    by (simp add: lines_entries_append)
next
  show "length (filter (\<lambda>e. vip e = slot)
                   (arp_emitted fromiso [False, False, False, False] (content f))) \<le> 1"
    using arp_emitted_count [of "[False, False, False, False]" slot fromiso "content f"] assms(2)
    by (simp split: if_splits)
next
  fix ls1 l1 ls2 l2 ls3 e
  let ?g0 = "[False, False, False, False]"
  assume h: "content f = ls1 @ l1 # ls2 @ l2 # ls3 \<and>
            e \<in> set (line_entries (foldl line_garp ?g0 ls1) (time_of fromiso l1) l1) \<and>
            event e = tookVip \<and> vip e = slot \<and> is_arp l2 \<and> slot_of l2 = slot"
  then have l1: "(is_arp l1 \<or> is_master l1) \<and> slot_of l1 = slot"
    using took_entry_cases [of e "foldl line_garp ?g0 ls1" "time_of fromiso l1" l1] by auto
  let ?g1 = "foldl line_garp ?g0 ls1"
  have len: "length ?g1 = 4" by (simp add: length_foldl_line_garp)
  have "line_garp ?g1 l1 ! slot"
    using line_garp_sets [of l1 ?g1] l1 len assms(2) by auto
  then have "foldl line_garp (line_garp ?g1 l1) ls2 ! slot"
    using assms(2) len by (intro foldl_line_garp_mono) (simp_all add: length_line_garp)
  then have "foldl line_garp ?g0 (ls1 @ l1 # ls2) ! slot"
    by simp
  with h show "arp_entries (foldl line_garp ?g0 (ls1 @ l1 # ls2)) (time_of fromiso l2) l2 = []"
    by (simp add: arp_entries_def)
qed

theorem C5_witness:
  "\<exists>self'.
     parseFile iso_sample False KeepalivedLogParser_init
       \<lparr>parts = [''logs'', ''node1.log''],
        content =
          [''2023-01-01T00:00:00 (ostest_API_0) Sending/queueing gratuitous ARPs on br-ex for 192.0.2.20'',
           ''2023-01-01T00:05:00 (ostest_API_0) Sending/queueing gratuitous ARPs on br-ex for 192.0.2.20'']\<rparr> =
       Inr self' \<and>
     logEntries self' =
       [(''node1.log'',
         [\<lparr>timestamp = 1672531200000000,
           line = ''2023-01-01T00:00:00 (ostest_API_0) Sending/queueing gratuitous ARPs on br-ex for 192.0.2.20'',
           event = tookVip, vip = 0\<rparr>])] \<and>
     arp_entries [True, False, False, False] 1672531500000000
       ''2023-01-01T00:05:00 (ostest_API_0) Sending/queueing gratuitous ARPs on br-ex for 192.0.2.20'' = []"
proof -
  let ?l1 = "''2023-01-01T00:00:00 (ostest_API_0) Sending/queueing gratuitous ARPs on br-ex for 192.0.2.20''"
  let ?l2 = "''2023-01-01T00:05:00 (ostest_API_0) Sending/queueing gratuitous ARPs on br-ex for 192.0.2.20''"
  let ?f = "\<lparr>parts = [''logs'', ''node1.log''], content = [?l1, ?l2]\<rparr>"
  let ?e = "\<lparr>timestamp = 1672531200000000, line = ?l1, event = tookVip, vip = 0\<rparr>"
  have "\<not> isl (parseFile iso_sample False KeepalivedLogParser_init ?f)"
    by code_simp
  then obtain self' where p: "parseFile iso_sample False KeepalivedLogParser_init ?f = Inr self'"
    by (cases "parseFile iso_sample False KeepalivedLogParser_init ?f") auto
  have n: "name_of False ?f = ''node1.log''"
    by code_simp
  have es: "lines_entries iso_sample [False, False, False, False] [?l1, ?l2] = [?e]"
    by code_simp
  have d: "setdefault (logEntries KeepalivedLogParser_init) ''node1.log'' [] = [(''node1.log'', [])]"
    by code_simp
  have le: "line_entries [False, False, False, False] (time_of iso_sample ?l1) ?l1 = [?e]"
    by code_simp
  have a: "is_arp ?l2" "slot_of ?l2 = 0" "time_of iso_sample ?l2 = 1672531500000000"
    "line_garp [False, False, False, False] ?l1 = [True, False, False, False]"
    by code_simp+
  have c: "content ?f = [] @ ?l1 # [] @ ?l2 # []"
    by simp
  have four: "(0::nat) < 4"
    by simp
  note C5 = C5_first_arp_per_slot_and_file [OF p four]
  have "logEntries self' =
      AList.map_entry ''node1.log'' (\<lambda>es. es @ [?e]) [(''node1.log'', [])]"
    using C5 [THEN conjunct1] by (simp only: n es d logfile.select_convs)
  then have first: "logEntries self' = [(''node1.log'', [?e])]"
    by simp
  have prem: "content ?f = [] @ ?l1 # [] @ ?l2 # [] \<and>
      ?e \<in> set (line_entries (foldl line_garp [False, False, False, False] [])
                  (time_of iso_sample ?l1) ?l1) \<and>
      event ?e = tookVip \<and> vip ?e = 0 \<and> is_arp ?l2 \<and> slot_of ?l2 = 0"
    using a(1,2) by (simp add: le)
  have "arp_entries (foldl line_garp [False, False, False, False] ([] @ ?l1 # []))
      (time_of iso_sample ?l2) ?l2 = []"
    using C5 [THEN conjunct2, THEN conjunct2, THEN conjunct2, rule_format,
        of "[]" ?l1 "[]" ?l2 "[]" ?e, OF prem]
    by simp
  then have last: "arp_entries [True, False, False, False] 1672531500000000 ?l2 = []"
    by (simp add: a(3,4))
  from p first last show ?thesis
    by simp
qed

subsection \<open>The state machine of one slot\<close>

lemma vip_event_slot:
  assumes "length (vipChanges nd) = 4" and "length hv = 4" and "vip e < 4" and "slot < 4"
    and "vip_event e (nd, hv) = (nd', hv')"
  shows "vipChanges nd' ! slot =
           vipChanges nd ! slot @ map timestamp (transitions slot (hv ! slot) [e])"
    and "hv' ! slot =
           (if vip e = slot \<and> event e = (if hv ! slot then lostVip else tookVip)
            then \<not> hv ! slot else hv ! slot)"
    and "length (vipChanges nd') = 4" and "length hv' = 4"
    and "events nd' = events nd" and "addrs nd' = addrs nd"
  using assms
  by (auto simp: vip_event_def nth_list_update split: if_splits)

lemma health_event_vipChanges: "vipChanges (health_event e nd) = vipChanges nd"
  by (simp add: health_event_def Let_def)

lemma address_event_vipChanges: "address_event e nd = Inr nd' \<Longrightarrow> vipChanges nd' = vipChanges nd"
  by (auto simp: address_event_def Let_def split: if_splits option.splits)

lemma replayEntry_slot:
  assumes "length (vipChanges nd) = 4" and "length hv = 4" and "vip e < 4" and "slot < 4"
    and "replayEntry (nd, hv) e = Inr (nd', hv')"
  shows "vipChanges nd' ! slot =
           vipChanges nd ! slot @ map timestamp (transitions slot (hv ! slot) [e])"
    and "hv' ! slot =
           (if vip e = slot \<and> event e = (if hv ! slot then lostVip else tookVip)
            then \<not> hv ! slot else hv ! slot)"
    and "length (vipChanges nd') = 4" and "length hv' = 4"
proof -
  obtain nd1 hv1 where v: "vip_event e (nd, hv) = (nd1, hv1)"
    by (cases "vip_event e (nd, hv)")
  from assms(5) have hv': "hv' = hv1"
    and a: "address_event e (health_event e nd1) = Inr nd'"
    by (auto simp: replayEntry_def v Let_def split: sum.splits)
  have vc: "vipChanges nd' = vipChanges nd1"
    using address_event_vipChanges [OF a] by (simp add: health_event_vipChanges)
  note ve = vip_event_slot [OF assms(1-4) v]
  show "vipChanges nd' ! slot =
           vipChanges nd ! slot @ map timestamp (transitions slot (hv ! slot) [e])"
    using ve(1) by (simp only: vc)
  show "hv' ! slot =
           (if vip e = slot \<and> event e = (if hv ! slot then lostVip else tookVip)
            then \<not> hv ! slot else hv ! slot)"
    using ve(2) by (simp only: hv')
  show "length (vipChanges nd') = 4" using ve(3) by (simp only: vc)
  show "length hv' = 4" using ve(4) by (simp only: hv')
qed

lemma replay_slot:
  assumes "replay (nd, hv) es = Inr (nd', hv')"
    and "length (vipChanges nd) = 4" and "length hv = 4" and "\<forall>e\<in>set es. vip e < 4"
    and "slot < 4"
  shows "vipChanges nd' ! slot =
           vipChanges nd ! slot @ map timestamp (transitions slot (hv ! slot) es)"
  using assms
proof (induction es arbitrary: nd hv)
  case Nil
  then show ?case by simp
next
  case (Cons e es)
  from Cons.prems(1) obtain nd1 hv1 where r1: "replayEntry (nd, hv) e = Inr (nd1, hv1)"
    and rest: "replay (nd1, hv1) es = Inr (nd', hv')"
    by (auto split: sum.splits)
  from Cons.prems have e4: "vip e < 4" and es4: "\<forall>e\<in>set es. vip e < 4"
    by simp_all
  note re = replayEntry_slot [OF Cons.prems(2,3) e4 Cons.prems(5) r1]
  from Cons.IH [OF rest re(3,4) es4 Cons.prems(5)]
  have "vipChanges nd' ! slot =
      vipChanges nd1 ! slot @ map timestamp (transitions slot (hv1 ! slot) es)" .
  then show ?case
    by (simp add: re(1,2))
qed

lemma alternates_transitions: "alternates held (transitions slot held es)"
  by (induction es arbitrary: held) simp_all

lemma set_transitions: "set (transitions slot held es) \<subseteq> {e \<in> set es. vip e = slot}"
  by (induction es arbitrary: held) auto

lemma sorted_transitions:
  "sorted (map timestamp es) \<Longrightarrow> sorted (map timestamp (transitions slot held es))"
proof (induction es arbitrary: held)
  case Nil
  then show ?case by simp
next
  case (Cons e es)
  then show ?case
    using set_transitions [of slot "\<not> held" es] by auto
qed

subsection \<open>The slots of the entries\<close>

lemma line_entries_vip: "e \<in> set (line_entries g t l) \<Longrightarrow> vip e < 4"
  using slot_of_less [of l]
  by (auto simp: line_entries_def script_entries_def arp_entries_def master_entries_def
      backup_entries_def reload_entries_def assigned_entries_def split: if_splits)

lemma lines_entries_vip: "e \<in> set (lines_entries fromiso g ls) \<Longrightarrow> vip e < 4"
  by (induction ls arbitrary: g) (auto dest: line_entries_vip)

lemma file_entries_vip: "e \<in> set (file_entries fromiso f) \<Longrightarrow> vip e < 4"
  by (simp add: file_entries_def lines_entries_vip)

lemma run_entries_vip:
  assumes "run fromiso mg scanned = Inr self" and "map_of (logEntries self) n = Some es"
    and "e \<in> set es"
  shows "vip e < 4"
  using assms(2,3)
  by (auto simp: run_map_of_logEntries [OF assms(1)] file_entries_vip split: if_splits)

lemma processNode_slot:
  assumes "processNode entries = Inr nd" and "\<forall>e\<in>set entries. vip e < 4" and "slot < 4"
  shows "vipChanges nd ! slot =
           map timestamp (transitions slot False (sort_key timestamp entries))"
proof -
  from assms(1) obtain hv
    where r: "replay (NodeData_init, [False, False, False, False]) (sort_key timestamp entries) =
               Inr (nd, hv)"
    by (auto simp: processNode_def split: sum.splits)
  have "[False, False, False, False] ! slot = False" "[[], [], [], []] ! slot = ([] :: int list)"
    using assms(3) by (auto simp: nth_Cons split: nat.splits)
  with replay_slot [OF r _ _ _ assms(3)] assms(2) show ?thesis
    by (simp add: NodeData_init_def)
qed

text \<open>
  C2, as amended. For every node and every slot the boundaries are the timestamps of
  entries of the node for that slot whose kinds are take, loss, take and so on, the
  first a take; and they are in ascending order, equal neighbours allowed.
\<close>

theorem C2_boundaries_sorted_alternating:
  assumes "run fromiso mg scanned = Inr self" and "map_of (nodeData self) n = Some nd"
    and "slot < 4"
  shows "sorted (vipChanges nd ! slot) \<and>
         (\<exists>entries es.
            map_of (logEntries self) n = Some entries \<and> set es \<subseteq> set entries \<and>
            (\<forall>e\<in>set es. vip e = slot) \<and> alternates False es \<and>
            vipChanges nd ! slot = map timestamp es)"
proof -
  from assms(2) obtain entries where le: "map_of (logEntries self) n = Some entries"
    and nd: "nd = projr (processNode entries)"
    by (auto simp: run_map_of_nodeData [OF assms(1)] split: option.splits)
  from le have "(n, entries) \<in> set (logEntries self)"
    by (rule map_of_SomeD)
  with run_InrD(5) [OF assms(1)] have "\<not> isl (processNode entries)"
    by auto
  with nd have pn: "processNode entries = Inr nd"
    by (cases "processNode entries") simp_all
  have v4: "\<forall>e\<in>set entries. vip e < 4"
    using run_entries_vip [OF assms(1) le] by blast
  let ?es = "transitions slot False (sort_key timestamp entries)"
  have eq: "vipChanges nd ! slot = map timestamp ?es"
    by (rule processNode_slot [OF pn v4 assms(3)])
  have "sorted (map timestamp ?es)"
    by (intro sorted_transitions) simp
  moreover have "set ?es \<subseteq> set entries" "\<forall>e\<in>set ?es. vip e = slot"
    using set_transitions [of slot False "sort_key timestamp entries"] by auto
  ultimately show ?thesis
    using le eq alternates_transitions [of False slot "sort_key timestamp entries"]
    by (intro conjI exI [of _ entries] exI [of _ ?es]) simp_all
qed

text \<open>
  C2 as stated fails: a take and a loss within one second. \<^verbatim>\<open>getTime\<close> drops the
  microseconds, and the two boundaries of slot 0 are equal.
\<close>

theorem C2_counterexample:
  "run iso_sample False
     [\<lparr>parts = [''logs'', ''node1.log''],
       content = [''2023-01-01T00:00:00.250000 (VI_1) Entering MASTER STATE'',
                  ''2023-01-01T00:00:00.750000 (VI_1) Entering BACKUP STATE'']\<rparr>] =
   Inr \<lparr>logEntries =
          [(''node1.log'',
            [\<lparr>timestamp = 1672531200000000,
              line = ''2023-01-01T00:00:00.250000 (VI_1) Entering MASTER STATE'',
              event = tookVip, vip = 0\<rparr>,
             \<lparr>timestamp = 1672531200000000,
              line = ''2023-01-01T00:00:00.750000 (VI_1) Entering BACKUP STATE'',
              event = lostVip, vip = 0\<rparr>])],
        nodeData =
          [(''node1.log'',
            \<lparr>vipChanges = [[1672531200000000, 1672531200000000], [], [], []],
             events = [], addrs = {}\<rparr>)],
        timeBounds = (Some 1672531200000000, Some 1672531200000000),
        vips = [[], [], [], []]\<rparr> \<and>
   \<not> sorted_wrt (<) [1672531200000000, 1672531200000000 :: int]"
  by code_simp

theorem C2_witness:
  "\<exists>self nd.
     run iso_sample False
       [\<lparr>parts = [''logs'', ''node1.log''],
         content = [''2023-01-01T00:00:00 (VI_1) Entering MASTER STATE'',
                    ''2023-01-01T00:05:00 (VI_1) Entering BACKUP STATE'']\<rparr>] = Inr self \<and>
     map_of (nodeData self) ''node1.log'' = Some nd \<and>
     vipChanges nd ! 0 = [1672531200000000, 1672531500000000] \<and>
     sorted (vipChanges nd ! 0)"
proof -
  let ?f = "\<lparr>parts = [''logs'', ''node1.log''],
         content = [''2023-01-01T00:00:00 (VI_1) Entering MASTER STATE'',
                    ''2023-01-01T00:05:00 (VI_1) Entering BACKUP STATE'']\<rparr>"
  let ?nd = "\<lparr>vipChanges = [[1672531200000000, 1672531500000000], [], [], []],
             events = [], addrs = {}\<rparr>"
  let ?self = "\<lparr>logEntries =
          [(''node1.log'',
            [\<lparr>timestamp = 1672531200000000,
              line = ''2023-01-01T00:00:00 (VI_1) Entering MASTER STATE'',
              event = tookVip, vip = 0\<rparr>,
             \<lparr>timestamp = 1672531500000000,
              line = ''2023-01-01T00:05:00 (VI_1) Entering BACKUP STATE'',
              event = lostVip, vip = 0\<rparr>])],
        nodeData = [(''node1.log'', ?nd)],
        timeBounds = (Some 1672531200000000, Some 1672531500000000),
        vips = [[], [], [], []]\<rparr>"
  have r: "run iso_sample False [?f] = Inr ?self"
    by code_simp
  have m: "map_of (nodeData ?self) ''node1.log'' = Some ?nd"
    by simp
  have four: "(0::nat) < 4"
    by simp
  from C2_boundaries_sorted_alternating [OF r m four] have "sorted (vipChanges ?nd ! 0)"
    by (rule conjunct1)
  with r m show ?thesis
    by (intro exI [of _ ?self] exI [of _ ?nd]) simp
qed

subsection \<open>Runs that succeed\<close>

lemma address_event_other: "event e \<noteq> nodeAddress \<Longrightarrow> address_event e nd = Inr nd"
  by (simp add: address_event_def)

lemma replayEntry_other: "event e \<noteq> nodeAddress \<Longrightarrow> \<not> isl (replayEntry nh e)"
  by (cases "vip_event e nh") (simp add: replayEntry_def address_event_other Let_def)

lemma replay_other: "\<forall>e\<in>set es. event e \<noteq> nodeAddress \<Longrightarrow> \<not> isl (replay nh es)"
proof (induction es arbitrary: nh)
  case Nil
  then show ?case by simp
next
  case (Cons e es)
  then show ?case
    using replayEntry_other [of e nh] by (cases "replayEntry nh e") simp_all
qed

lemma processNode_other: "\<forall>e\<in>set es. event e \<noteq> nodeAddress \<Longrightarrow> \<not> isl (processNode es)"
  using replay_other [of "sort_key timestamp es" "(NodeData_init, [False, False, False, False])"]
  by (auto simp: processNode_def split: sum.splits)

lemma line_entries_other:
  "\<not> is_assigned l \<Longrightarrow> e \<in> set (line_entries g t l) \<Longrightarrow> event e \<noteq> nodeAddress"
  by (auto simp: line_entries_def script_entries_def arp_entries_def master_entries_def
      backup_entries_def reload_entries_def assigned_entries_def split: if_splits)

lemma lines_entries_other:
  "\<forall>l\<in>set ls. \<not> is_assigned l \<Longrightarrow> e \<in> set (lines_entries fromiso g ls) \<Longrightarrow>
   event e \<noteq> nodeAddress"
  by (induction ls arbitrary: g) (auto dest: line_entries_other)

lemma run_succeeds:
  assumes "scanned \<noteq> []" and "\<forall>f\<in>set scanned. file_ok fromiso mg f"
    and "\<forall>f\<in>set scanned. \<forall>l\<in>set (content f). \<not> is_assigned l"
  shows "\<exists>self. run fromiso mg scanned = Inr self"
proof -
  let ?d = "foldl (add_file fromiso mg) [] (findLogs scanned)"
  let ?s0 = "\<lparr>logEntries = ?d, nodeData = [],
      timeBounds = foldl (\<lambda>b t. update_timeBounds t b) (None, None)
             (map (time_of fromiso) (concat (map content (findLogs scanned)))),
      vips = foldl line_vips [[], [], [], []] (concat (map content (findLogs scanned)))\<rparr>"
  from assms(2) have ok: "\<forall>f\<in>set (findLogs scanned). file_ok fromiso mg f"
    by (simp add: set_findLogs)
  have p: "parseLogs fromiso mg KeepalivedLogParser_init (findLogs scanned) = Inr ?s0"
    by (simp add: parseLogs_eq [OF ok] KeepalivedLogParser_init_def)
  have ne: "?d \<noteq> []"
    using parseLogs_nonempty [OF p] assms(1) by (simp add: findLogs_Nil_iff)
  have "\<not> isl (processNode es)" if "(n, es) \<in> set ?d" for n es
  proof (rule processNode_other, rule ballI)
    fix e
    assume e: "e \<in> set es"
    have "distinct (map fst ?d)"
      by (simp add: distinct_add_files)
    with that have "map_of ?d n = Some es"
      by simp
    with e obtain f where "f \<in> set scanned" and "e \<in> set (file_entries fromiso f)"
      by (auto simp: map_of_add_files set_findLogs split: if_splits)
    with assms(3) show "event e \<noteq> nodeAddress"
      by (auto simp: file_entries_def dest: lines_entries_other [rotated])
  qed
  then have "\<forall>(n, es)\<in>set ?d. \<not> isl (processNode es)"
    by auto
  from processNodes_eq [OF this, of ?s0] ne show ?thesis
    by (simp add: run_def parse_and_process_def p processEntries_def)
qed

subsection \<open>A take and a loss\<close>

lemma transitions_script:
  "transitions s h (script_entries t l @ es) = transitions s h es"
  by (simp add: script_entries_def)

lemma transitions_reload:
  "transitions s h (reload_entries t l @ es) = transitions s h es"
  by (simp add: reload_entries_def)

lemma transitions_assigned:
  "transitions s h (assigned_entries t l @ es) = transitions s h es"
  by (simp add: assigned_entries_def)

lemma took_line:
  assumes "(is_arp l \<and> \<not> g ! slot_of l) \<or> is_master l" and "\<not> is_backup l"
  shows "transitions (slot_of l) False (line_entries g t l @ es) =
           \<lparr>timestamp = t, line = l, event = tookVip, vip = slot_of l\<rparr> #
           transitions (slot_of l) True es"
  using assms
  by (auto simp: line_entries_def transitions_script transitions_reload transitions_assigned
      arp_entries_def master_entries_def backup_entries_def)

lemma lost_line:
  assumes "is_backup l" and "\<not> is_master l"
  shows "transitions (slot_of l) True (line_entries g t l @ es) =
           \<lparr>timestamp = t, line = l, event = lostVip, vip = slot_of l\<rparr> #
           transitions (slot_of l) False es"
  using assms
  by (auto simp: line_entries_def transitions_script transitions_reload transitions_assigned
      arp_entries_def master_entries_def backup_entries_def)

lemma line_entries_timestamp: "e \<in> set (line_entries g t l) \<Longrightarrow> timestamp e = t"
  by (auto simp: line_entries_def script_entries_def arp_entries_def master_entries_def
      backup_entries_def reload_entries_def assigned_entries_def split: if_splits)

lemma sorted_const: "\<forall>x\<in>set xs. f x = (a :: int) \<Longrightarrow> sorted (map f xs)"
  by (induction xs) auto

lemma sort_key_two_blocks:
  fixes f :: "'a \<Rightarrow> int"
  assumes "\<forall>x\<in>set xs. f x = a" and "\<forall>y\<in>set ys. f y = b" and "b < a"
  shows "sort_key f (xs @ ys) = ys @ xs"
proof (rule properties_for_sort_key)
  show "mset (ys @ xs) = mset (xs @ ys)"
    by simp
  show "sorted (map f (ys @ xs))"
    using assms sorted_const [of xs f a] sorted_const [of ys f b]
    by (auto simp: sorted_append)
  show "filter (\<lambda>x. f k = f x) (ys @ xs) = filter (\<lambda>x. f k = f x) (xs @ ys)"
    if "k \<in> set (ys @ xs)" for k
  proof (cases "k \<in> set ys")
    case True
    then have "filter (\<lambda>x. f k = f x) xs = []"
      using assms by (auto simp: filter_empty_conv)
    then show ?thesis by simp
  next
    case False
    with that have "filter (\<lambda>x. f k = f x) ys = []"
      using assms by (auto simp: filter_empty_conv)
    then show ?thesis by simp
  qed
qed

text \<open>
  C6. First scenario: one file whose first line enters \<^verbatim>\<open>MASTER STATE\<close> at \<open>t1\<close> and
  whose second line enters \<^verbatim>\<open>BACKUP STATE\<close> at a later \<open>t2\<close>, both for slot 0; the
  boundaries of slot 0 are \<open>[t1, t2]\<close>. Second scenario: two files of one node, one
  with a take at \<open>t1\<close> for slot 1, the other with a loss at a later \<open>t2\<close> for slot 1,
  the file of the loss first in the order of the paths and so parsed first; the
  boundaries of slot 1 are \<open>[t1, t2]\<close> all the same.
\<close>

theorem C6_take_then_lose:
  "(node_name mg f = Inr n \<and> content f = [l1, l2] \<and>
    getTime fromiso l1 = Inr t1 \<and> getTime fromiso l2 = Inr t2 \<and> t1 < t2 \<and>
    is_master l1 \<and> \<not> is_backup l1 \<and> \<not> is_assigned l1 \<and> slot_of l1 = 0 \<and>
    is_backup l2 \<and> \<not> is_master l2 \<and> \<not> is_assigned l2 \<and> slot_of l2 = 0
    \<longrightarrow> (\<exists>self nd. run fromiso mg [f] = Inr self \<and> map_of (nodeData self) n = Some nd \<and>
           vipChanges nd ! 0 = [t1, t2])) \<and>
   (node_name mg fT = Inr n \<and> node_name mg fL = Inr n \<and> parts fL < parts fT \<and>
    content fT = [lT] \<and> content fL = [lL] \<and>
    getTime fromiso lT = Inr t1 \<and> getTime fromiso lL = Inr t2 \<and> t1 < t2 \<and>
    (is_master lT \<or> is_arp lT) \<and> \<not> is_backup lT \<and> \<not> is_assigned lT \<and> slot_of lT = 1 \<and>
    is_backup lL \<and> \<not> is_master lL \<and> \<not> is_assigned lL \<and> slot_of lL = 1
    \<longrightarrow> (\<exists>self nd. run fromiso mg [fT, fL] = Inr self \<and> findLogs [fT, fL] = [fL, fT] \<and>
           map_of (logEntries self) n =
             Some (file_entries fromiso fL @ file_entries fromiso fT) \<and>
           map_of (nodeData self) n = Some nd \<and> vipChanges nd ! 1 = [t1, t2]))"
proof (intro conjI impI)
  let ?g0 = "[False, False, False, False]"
  assume h: "node_name mg f = Inr n \<and> content f = [l1, l2] \<and>
    getTime fromiso l1 = Inr t1 \<and> getTime fromiso l2 = Inr t2 \<and> t1 < t2 \<and>
    is_master l1 \<and> \<not> is_backup l1 \<and> \<not> is_assigned l1 \<and> slot_of l1 = 0 \<and>
    is_backup l2 \<and> \<not> is_master l2 \<and> \<not> is_assigned l2 \<and> slot_of l2 = 0"
  then have ok: "\<forall>f\<in>set [f]. file_ok fromiso mg f"
    by (simp add: file_ok_iff)
  from h have na: "\<forall>f\<in>set [f]. \<forall>l\<in>set (content f). \<not> is_assigned l"
    by simp
  from run_succeeds [OF _ ok na] obtain self where r: "run fromiso mg [f] = Inr self"
    by auto
  let ?a = "line_entries ?g0 t1 l1" and ?b = "line_entries (line_garp ?g0 l1) t2 l2"
  from h have fe: "file_entries fromiso f = ?a @ ?b"
    by (simp add: file_entries_def time_of_eq)
  from h have le: "map_of (logEntries self) n = Some (?a @ ?b)"
    by (simp add: run_map_of_logEntries [OF r] name_of_eq findLogs_def fe)
  then have nd: "map_of (nodeData self) n = Some (projr (processNode (?a @ ?b)))"
    by (simp add: run_map_of_nodeData [OF r])
  from le have "(n, ?a @ ?b) \<in> set (logEntries self)"
    by (rule map_of_SomeD)
  with run_InrD(5) [OF r] have "\<not> isl (processNode (?a @ ?b))"
    by auto
  then obtain x where pn: "processNode (?a @ ?b) = Inr x"
    by (cases "processNode (?a @ ?b)") auto
  have v4: "\<forall>e\<in>set (?a @ ?b). vip e < 4"
    by (auto dest: line_entries_vip)
  have "sorted (map timestamp (?a @ ?b))"
    using h sorted_const [of ?a timestamp t1] sorted_const [of ?b timestamp t2]
    by (auto simp: sorted_append dest!: line_entries_timestamp)
  then have so: "sort_key timestamp (?a @ ?b) = ?a @ ?b"
    by (rule sort_key_id_if_sorted)
  have "transitions 0 False (?a @ ?b @ []) =
      [\<lparr>timestamp = t1, line = l1, event = tookVip, vip = 0\<rparr>,
       \<lparr>timestamp = t2, line = l2, event = lostVip, vip = 0\<rparr>]"
    using h took_line [of l1 ?g0 t1 "?b @ []"] lost_line [of l2 "line_garp ?g0 l1" t2 "[]"]
    by simp
  then have "vipChanges x ! 0 = [t1, t2]"
    using processNode_slot [OF pn v4, of 0] by (simp add: so)
  with r nd pn show "\<exists>self nd. run fromiso mg [f] = Inr self \<and>
      map_of (nodeData self) n = Some nd \<and> vipChanges nd ! 0 = [t1, t2]"
    by simp
next
  let ?g0 = "[False, False, False, False]"
  assume h: "node_name mg fT = Inr n \<and> node_name mg fL = Inr n \<and> parts fL < parts fT \<and>
    content fT = [lT] \<and> content fL = [lL] \<and>
    getTime fromiso lT = Inr t1 \<and> getTime fromiso lL = Inr t2 \<and> t1 < t2 \<and>
    (is_master lT \<or> is_arp lT) \<and> \<not> is_backup lT \<and> \<not> is_assigned lT \<and> slot_of lT = 1 \<and>
    is_backup lL \<and> \<not> is_master lL \<and> \<not> is_assigned lL \<and> slot_of lL = 1"
  then have ok: "\<forall>f\<in>set [fT, fL]. file_ok fromiso mg f"
    by (simp add: file_ok_iff)
  from h have na: "\<forall>f\<in>set [fT, fL]. \<forall>l\<in>set (content f). \<not> is_assigned l"
    by simp
  from run_succeeds [OF _ ok na] obtain self where r: "run fromiso mg [fT, fL] = Inr self"
    by auto
  from h have fl: "findLogs [fT, fL] = [fL, fT]"
    by (auto simp: findLogs_def)
  let ?a = "line_entries ?g0 t1 lT" and ?b = "line_entries ?g0 t2 lL"
  from h have fe: "file_entries fromiso fT = ?a" "file_entries fromiso fL = ?b"
    by (simp_all add: file_entries_def time_of_eq)
  from h have le: "map_of (logEntries self) n = Some (?b @ ?a)"
    by (simp add: run_map_of_logEntries [OF r] name_of_eq fl fe)
  then have nd: "map_of (nodeData self) n = Some (projr (processNode (?b @ ?a)))"
    by (simp add: run_map_of_nodeData [OF r])
  from le have "(n, ?b @ ?a) \<in> set (logEntries self)"
    by (rule map_of_SomeD)
  with run_InrD(5) [OF r] have "\<not> isl (processNode (?b @ ?a))"
    by auto
  then obtain x where pn: "processNode (?b @ ?a) = Inr x"
    by (cases "processNode (?b @ ?a)") auto
  have v4: "\<forall>e\<in>set (?b @ ?a). vip e < 4"
    by (auto dest: line_entries_vip)
  have so: "sort_key timestamp (?b @ ?a) = ?a @ ?b"
    using h by (intro sort_key_two_blocks [of _ _ t2 _ t1]) (auto dest: line_entries_timestamp)
  have "(is_arp lT \<and> \<not> ?g0 ! slot_of lT) \<or> is_master lT"
    using h by auto
  then have "transitions 1 False (?a @ ?b @ []) =
      [\<lparr>timestamp = t1, line = lT, event = tookVip, vip = 1\<rparr>,
       \<lparr>timestamp = t2, line = lL, event = lostVip, vip = 1\<rparr>]"
    using h took_line [of lT ?g0 t1 "?b @ []"] lost_line [of lL ?g0 t2 "[]"]
    by simp
  then have "vipChanges x ! 1 = [t1, t2]"
    using processNode_slot [OF pn v4, of 1] by (simp add: so)
  with r nd pn fl le show "\<exists>self nd. run fromiso mg [fT, fL] = Inr self \<and>
      findLogs [fT, fL] = [fL, fT] \<and>
      map_of (logEntries self) n = Some (file_entries fromiso fL @ file_entries fromiso fT) \<and>
      map_of (nodeData self) n = Some nd \<and> vipChanges nd ! 1 = [t1, t2]"
    by (simp add: fe)
qed

theorem C6_witness:
  "(\<exists>self nd.
      run iso_sample False
        [\<lparr>parts = [''logs'', ''node1.log''],
          content = [''2023-01-01T00:00:00 Keepalived_vrrp[1]: (VI_1) Entering MASTER STATE'',
                     ''2023-01-01T00:05:00 Keepalived_vrrp[1]: (VI_1) Entering BACKUP STATE'']\<rparr>] =
        Inr self \<and>
      map_of (nodeData self) ''node1.log'' = Some nd \<and>
      vipChanges nd ! 0 = [1672531200000000, 1672531500000000]) \<and>
   (\<exists>self nd.
      run iso_sample True
        [\<lparr>parts = [''namespaces'', ''openshift-kni-infra'', ''pods'', ''keepalived-master-0'',
                    ''keepalived'', ''keepalived'', ''logs'', ''rotated'', ''0.log''],
          content = [''2023-01-01T00:00:00 Keepalived_vrrp[1]: (ostest_API_1) Entering MASTER STATE'']\<rparr>,
         \<lparr>parts = [''namespaces'', ''openshift-kni-infra'', ''pods'', ''keepalived-master-0'',
                    ''keepalived'', ''keepalived'', ''logs'', ''current.log''],
          content = [''2023-01-01T00:05:00 Keepalived_vrrp[1]: (ostest_API_1) Entering BACKUP STATE'']\<rparr>] =
        Inr self \<and>
      map_of (nodeData self) ''keepalived-master-0'' = Some nd \<and>
      vipChanges nd ! 1 = [1672531200000000, 1672531500000000])"
proof -
  let ?l1 = "''2023-01-01T00:00:00 Keepalived_vrrp[1]: (VI_1) Entering MASTER STATE''"
  let ?l2 = "''2023-01-01T00:05:00 Keepalived_vrrp[1]: (VI_1) Entering BACKUP STATE''"
  let ?f = "\<lparr>parts = [''logs'', ''node1.log''], content = [?l1, ?l2]\<rparr>"
  let ?lT = "''2023-01-01T00:00:00 Keepalived_vrrp[1]: (ostest_API_1) Entering MASTER STATE''"
  let ?lL = "''2023-01-01T00:05:00 Keepalived_vrrp[1]: (ostest_API_1) Entering BACKUP STATE''"
  let ?fT = "\<lparr>parts = [''namespaces'', ''openshift-kni-infra'', ''pods'', ''keepalived-master-0'',
                    ''keepalived'', ''keepalived'', ''logs'', ''rotated'', ''0.log''],
          content = [?lT]\<rparr>"
  let ?fL = "\<lparr>parts = [''namespaces'', ''openshift-kni-infra'', ''pods'', ''keepalived-master-0'',
                    ''keepalived'', ''keepalived'', ''logs'', ''current.log''],
          content = [?lL]\<rparr>"
  have a: "node_name False ?f = Inr ''node1.log'' \<and> content ?f = [?l1, ?l2] \<and>
    getTime iso_sample ?l1 = Inr 1672531200000000 \<and>
    getTime iso_sample ?l2 = Inr 1672531500000000 \<and>
    (1672531200000000 :: int) < 1672531500000000 \<and>
    is_master ?l1 \<and> \<not> is_backup ?l1 \<and> \<not> is_assigned ?l1 \<and> slot_of ?l1 = 0 \<and>
    is_backup ?l2 \<and> \<not> is_master ?l2 \<and> \<not> is_assigned ?l2 \<and> slot_of ?l2 = 0"
    by code_simp
  have c: "node_name True ?fT = Inr ''keepalived-master-0'' \<and>
    node_name True ?fL = Inr ''keepalived-master-0'' \<and> parts ?fL < parts ?fT \<and>
    content ?fT = [?lT] \<and> content ?fL = [?lL] \<and>
    getTime iso_sample ?lT = Inr 1672531200000000 \<and>
    getTime iso_sample ?lL = Inr 1672531500000000 \<and>
    (1672531200000000 :: int) < 1672531500000000 \<and>
    (is_master ?lT \<or> is_arp ?lT) \<and> \<not> is_backup ?lT \<and> \<not> is_assigned ?lT \<and> slot_of ?lT = 1 \<and>
    is_backup ?lL \<and> \<not> is_master ?lL \<and> \<not> is_assigned ?lL \<and> slot_of ?lL = 1"
    by code_simp
  from C6_take_then_lose [THEN conjunct1, THEN mp, OF a]
    C6_take_then_lose [THEN conjunct2, THEN mp, OF c]
  show ?thesis
    by blast
qed

subsection \<open>The order of the files\<close>

lemma parse_and_process_map_of_logEntries:
  assumes "parse_and_process fromiso mg fs = Inr self"
  shows "map_of (logEntries self) n =
     (if n \<in> name_of mg ` set fs
      then Some (concat (map (file_entries fromiso) (filter (\<lambda>f. name_of mg f = n) fs)))
      else None)"
  by (simp add: parse_and_process_InrD(2) [OF assms] map_of_add_files)

lemma parse_and_process_map_of_nodeData:
  assumes "parse_and_process fromiso mg fs = Inr self"
  shows "map_of (nodeData self) n =
     (case map_of (logEntries self) n of
        None \<Rightarrow> None
      | Some es \<Rightarrow> Some (projr (processNode es)))"
proof -
  have "distinct (map fst (logEntries self))"
    by (simp add: parse_and_process_InrD(2) [OF assms] distinct_add_files)
  then show ?thesis
    by (subst parse_and_process_InrD(6) [OF assms])
       (simp add: map_of_update_nodes split: option.splits)
qed

lemma parse_and_process_succeeds:
  assumes "fs \<noteq> []" and "\<forall>f\<in>set fs. file_ok fromiso mg f"
    and "\<forall>(n, es)\<in>set (foldl (add_file fromiso mg) [] fs). \<not> isl (processNode es)"
  shows "\<exists>self. parse_and_process fromiso mg fs = Inr self"
proof -
  let ?s0 = "\<lparr>logEntries = foldl (add_file fromiso mg) [] fs, nodeData = [],
      timeBounds = foldl (\<lambda>b t. update_timeBounds t b) (None, None)
             (map (time_of fromiso) (concat (map content fs))),
      vips = foldl line_vips [[], [], [], []] (concat (map content fs))\<rparr>"
  have p: "parseLogs fromiso mg KeepalivedLogParser_init fs = Inr ?s0"
    by (simp add: parseLogs_eq [OF assms(2)] KeepalivedLogParser_init_def)
  have ne: "foldl (add_file fromiso mg) [] fs \<noteq> []"
    using parseLogs_nonempty [OF p assms(1)] by simp
  from processNodes_eq [OF assms(3), of ?s0] ne show ?thesis
    by (simp add: parse_and_process_def p processEntries_def)
qed

lemma address_event_isl: "isl (address_event e nd) = isl (address_event e nd')"
  by (simp add: address_event_def Let_def split: option.splits)

lemma replayEntry_isl: "isl (replayEntry nh e) = isl (address_event e NodeData_init)"
proof -
  obtain nd hv where v: "vip_event e nh = (nd, hv)"
    by (cases "vip_event e nh")
  have "isl (replayEntry nh e) = isl (address_event e (health_event e nd))"
    by (simp add: replayEntry_def v Let_def split: sum.splits)
  then show ?thesis
    using address_event_isl [of e "health_event e nd" NodeData_init] by simp
qed

lemma replay_isl:
  "\<not> isl (replay nh es) \<longleftrightarrow> (\<forall>e\<in>set es. \<not> isl (address_event e NodeData_init))"
proof (induction es arbitrary: nh)
  case Nil
  then show ?case by simp
next
  case (Cons e es)
  show ?case
  proof (cases "replayEntry nh e")
    case (Inl err)
    then show ?thesis
      using replayEntry_isl [of nh e] by simp
  next
    case (Inr nh')
    then show ?thesis
      using replayEntry_isl [of nh e] Cons.IH [of nh'] by simp
  qed
qed

lemma processNode_isl:
  "\<not> isl (processNode es) \<longleftrightarrow> (\<forall>e\<in>set es. \<not> isl (address_event e NodeData_init))"
proof -
  have "\<not> isl (processNode es) \<longleftrightarrow>
      \<not> isl (replay (NodeData_init, [False, False, False, False]) (sort_key timestamp es))"
    by (simp add: processNode_def split: sum.splits prod.splits)
  then show ?thesis
    by (simp add: replay_isl)
qed

lemma processNode_cong:
  "sort_key timestamp es = sort_key timestamp es' \<Longrightarrow> processNode es = processNode es'"
  by (simp add: processNode_def)

lemma mset_concat_map_cong:
  assumes "mset xs = mset ys"
  shows "mset (concat (map g xs)) = mset (concat (map g ys))"
proof -
  have "mset (concat (map g zs)) = (\<Sum>z\<in>#mset zs. mset (g z))" for zs :: "'a list"
    by (induction zs) simp_all
  with assms show ?thesis by simp
qed

lemma sort_key_distinct_cong:
  assumes "mset xs = mset ys" and "distinct (map f xs)"
  shows "sort_key f xs = sort_key f ys"
proof (rule sort_key_inj_key_eq)
  show "mset xs = mset (sort_key f ys)"
    using assms(1) by simp
  show "inj_on f (set xs)"
    using assms(2) by (simp add: distinct_map)
  show "sorted (map f (sort_key f ys))"
    by simp
qed

lemma findLogs_cong:
  assumes "mset scanned' = mset scanned" and "distinct (map parts scanned)"
  shows "findLogs scanned' = findLogs scanned"
proof -
  have "mset (map parts scanned') = mset (map parts scanned)"
    using assms(1) by simp
  with assms(2) have "distinct (map parts scanned')"
    by (metis mset_eq_imp_distinct_iff)
  with assms(1) show ?thesis
    unfolding findLogs_def by (rule sort_key_distinct_cong)
qed

lemma parse_and_process_Nil: "parse_and_process fromiso mg [] = Inl Exception_No_log_entries"
  by (simp add: parse_and_process_def processEntries_def KeepalivedLogParser_init_def)

text \<open>
  C3. The files are sorted by their paths before they are parsed, so for a set of files
  with distinct paths the whole result of a run (time bounds, labels, the record of
  every node) is the same in whatever order the scan presents the files. Moreover, were
  the same files parsed in another order, the run would succeed all the same, with the
  same time bounds and, for every node no two entries of which have the same timestamp,
  with the same record: there the order of discovery only breaks ties.
\<close>

theorem C3_order_of_files:
  assumes "mset scanned' = mset scanned"
  shows "(distinct (map parts scanned) \<longrightarrow> run fromiso mg scanned' = run fromiso mg scanned) \<and>
         (parse_and_process fromiso mg scanned = Inr self \<longrightarrow>
            (\<exists>self'. parse_and_process fromiso mg scanned' = Inr self' \<and>
               timeBounds self' = timeBounds self \<and>
               (\<forall>n. (\<forall>es. map_of (logEntries self) n = Some es \<longrightarrow> distinct (map timestamp es))
                    \<longrightarrow> map_of (nodeData self') n = map_of (nodeData self) n)))"
proof (intro conjI impI)
  assume "distinct (map parts scanned)"
  with assms have "findLogs scanned' = findLogs scanned"
    by (rule findLogs_cong)
  then show "run fromiso mg scanned' = run fromiso mg scanned"
    by (simp add: run_def)
next
  assume pp: "parse_and_process fromiso mg scanned = Inr self"
  let ?E = "\<lambda>n fs. concat (map (file_entries fromiso) (filter (\<lambda>f. name_of mg f = n) fs))"
  let ?d' = "foldl (add_file fromiso mg) [] scanned'"
  from assms have sets: "set scanned' = set scanned"
    by (rule mset_eq_setD)
  from pp have "scanned \<noteq> []"
    by (auto simp: parse_and_process_Nil)
  with assms have ne: "scanned' \<noteq> []"
    by auto
  from parse_and_process_InrD(1) [OF pp] have ok: "\<forall>f\<in>set scanned'. file_ok fromiso mg f"
    by (simp add: sets)
  have E: "mset (?E n scanned') = mset (?E n scanned)" for n
    using assms by (intro mset_concat_map_cong) simp
  have le: "map_of (logEntries self) n = Some (?E n scanned)" if "n \<in> name_of mg ` set scanned" for n
    using that by (simp add: parse_and_process_map_of_logEntries [OF pp])
  have "\<not> isl (processNode es')" if "(n, es') \<in> set ?d'" for n es'
  proof -
    have "distinct (map fst ?d')"
      by (simp add: distinct_add_files)
    with that have m: "map_of ?d' n = Some es'"
      by simp
    then have n: "n \<in> name_of mg ` set scanned" and es': "es' = ?E n scanned'"
      by (auto simp: map_of_add_files sets split: if_splits)
    from le [OF n] have "(n, ?E n scanned) \<in> set (logEntries self)"
      by (rule map_of_SomeD)
    with parse_and_process_InrD(5) [OF pp] have "\<not> isl (processNode (?E n scanned))"
      by auto
    moreover have "set es' = set (?E n scanned)"
      unfolding es' using E [of n] by (rule mset_eq_setD)
    ultimately show ?thesis
      by (simp add: processNode_isl)
  qed
  then have "\<forall>(n, es)\<in>set ?d'. \<not> isl (processNode es)"
    by auto
  from parse_and_process_succeeds [OF ne ok this]
  obtain self' where pp': "parse_and_process fromiso mg scanned' = Inr self'"
    by auto
  let ?ts = "\<lambda>fs. map (time_of fromiso) (concat (map content fs))"
  have "set (?ts scanned') = set (?ts scanned)" "?ts scanned' = [] \<longleftrightarrow> ?ts scanned = []"
    by (simp_all add: sets)
  then have tb: "timeBounds self' = timeBounds self"
    by (simp add: parse_and_process_InrD(3) [OF pp] parse_and_process_InrD(3) [OF pp']
        foldl_update_timeBounds_None del: map_concat)
  have "map_of (nodeData self') n = map_of (nodeData self) n"
    if nt: "\<forall>es. map_of (logEntries self) n = Some es \<longrightarrow> distinct (map timestamp es)" for n
  proof (cases "n \<in> name_of mg ` set scanned")
    case True
    from nt le [OF True] have "distinct (map timestamp (?E n scanned))"
      by blast
    with E [of n] have "sort_key timestamp (?E n scanned) = sort_key timestamp (?E n scanned')"
      by (intro sort_key_distinct_cong) simp_all
    then have "processNode (?E n scanned') = processNode (?E n scanned)"
      by (intro processNode_cong) simp
    with True show ?thesis
      by (simp add: parse_and_process_map_of_nodeData [OF pp]
          parse_and_process_map_of_nodeData [OF pp']
          parse_and_process_map_of_logEntries [OF pp]
          parse_and_process_map_of_logEntries [OF pp'] sets)
  next
    case False
    then show ?thesis
      by (simp add: parse_and_process_map_of_nodeData [OF pp]
          parse_and_process_map_of_nodeData [OF pp']
          parse_and_process_map_of_logEntries [OF pp]
          parse_and_process_map_of_logEntries [OF pp'] sets)
  qed
  with pp' tb show "\<exists>self'. parse_and_process fromiso mg scanned' = Inr self' \<and>
               timeBounds self' = timeBounds self \<and>
               (\<forall>n. (\<forall>es. map_of (logEntries self) n = Some es \<longrightarrow> distinct (map timestamp es))
                    \<longrightarrow> map_of (nodeData self') n = map_of (nodeData self) n)"
    by blast
qed

theorem C3_witness:
  "run iso_sample True
     [\<lparr>parts = [''namespaces'', ''openshift-kni-infra'', ''pods'', ''keepalived-master-0'',
                 ''keepalived'', ''keepalived'', ''logs'', ''rotated'', ''0.log''],
       content = [''2023-01-01T00:00:00 (ostest_API_1) Entering MASTER STATE'']\<rparr>,
      \<lparr>parts = [''namespaces'', ''openshift-kni-infra'', ''pods'', ''keepalived-master-0'',
                 ''keepalived'', ''keepalived'', ''logs'', ''current.log''],
       content = [''2023-01-01T00:05:00 (ostest_API_1) Entering BACKUP STATE'']\<rparr>] =
   run iso_sample True
     [\<lparr>parts = [''namespaces'', ''openshift-kni-infra'', ''pods'', ''keepalived-master-0'',
                 ''keepalived'', ''keepalived'', ''logs'', ''current.log''],
       content = [''2023-01-01T00:05:00 (ostest_API_1) Entering BACKUP STATE'']\<rparr>,
      \<lparr>parts = [''namespaces'', ''openshift-kni-infra'', ''pods'', ''keepalived-master-0'',
                 ''keepalived'', ''keepalived'', ''logs'', ''rotated'', ''0.log''],
       content = [''2023-01-01T00:00:00 (ostest_API_1) Entering MASTER STATE'']\<rparr>] \<and>
   (\<exists>self'.
      parse_and_process iso_sample True
        [\<lparr>parts = [''namespaces'', ''openshift-kni-infra'', ''pods'', ''keepalived-master-0'',
                    ''keepalived'', ''keepalived'', ''logs'', ''rotated'', ''0.log''],
          content = [''2023-01-01T00:00:00 (ostest_API_1) Entering MASTER STATE'']\<rparr>,
         \<lparr>parts = [''namespaces'', ''openshift-kni-infra'', ''pods'', ''keepalived-master-0'',
                    ''keepalived'', ''keepalived'', ''logs'', ''current.log''],
          content = [''2023-01-01T00:05:00 (ostest_API_1) Entering BACKUP STATE'']\<rparr>] =
        Inr self' \<and>
      timeBounds self' = (Some 1672531200000000, Some 1672531500000000) \<and>
      map_of (nodeData self') ''keepalived-master-0'' =
        Some \<lparr>vipChanges = [[], [1672531200000000, 1672531500000000], [], []],
              events = [], addrs = {}\<rparr>)"
proof -
  let ?fT = "\<lparr>parts = [''namespaces'', ''openshift-kni-infra'', ''pods'', ''keepalived-master-0'',
                    ''keepalived'', ''keepalived'', ''logs'', ''rotated'', ''0.log''],
          content = [''2023-01-01T00:00:00 (ostest_API_1) Entering MASTER STATE'']\<rparr>"
  let ?fL = "\<lparr>parts = [''namespaces'', ''openshift-kni-infra'', ''pods'', ''keepalived-master-0'',
                    ''keepalived'', ''keepalived'', ''logs'', ''current.log''],
          content = [''2023-01-01T00:05:00 (ostest_API_1) Entering BACKUP STATE'']\<rparr>"
  let ?eT = "\<lparr>timestamp = 1672531200000000,
              line = ''2023-01-01T00:00:00 (ostest_API_1) Entering MASTER STATE'',
              event = tookVip, vip = 1\<rparr>"
  let ?eL = "\<lparr>timestamp = 1672531500000000,
              line = ''2023-01-01T00:05:00 (ostest_API_1) Entering BACKUP STATE'',
              event = lostVip, vip = 1\<rparr>"
  let ?nd = "[(''keepalived-master-0'',
                 \<lparr>vipChanges = [[], [1672531200000000, 1672531500000000], [], []],
                  events = [], addrs = {}\<rparr>)]"
  let ?self = "\<lparr>logEntries = [(''keepalived-master-0'', [?eL, ?eT])], nodeData = ?nd,
        timeBounds = (Some 1672531200000000, Some 1672531500000000),
        vips = [[], [], [], []]\<rparr>"
  have m: "mset [?fT, ?fL] = mset [?fL, ?fT]"
    by simp
  have d: "distinct (map parts [?fL, ?fT])"
    by code_simp
  have pp: "parse_and_process iso_sample True [?fL, ?fT] = Inr ?self"
    by code_simp
  have nt: "\<forall>es. map_of (logEntries ?self) ''keepalived-master-0'' = Some es \<longrightarrow>
      distinct (map timestamp es)"
    by simp
  note C3 = C3_order_of_files [OF m, of iso_sample True ?self]
  from C3 [THEN conjunct1, THEN mp, OF d]
  have first: "run iso_sample True [?fT, ?fL] = run iso_sample True [?fL, ?fT]" .
  from C3 [THEN conjunct2, THEN mp, OF pp]
  obtain self' where p': "parse_and_process iso_sample True [?fT, ?fL] = Inr self'"
    and tb: "timeBounds self' = timeBounds ?self"
    and nodes: "\<forall>n. (\<forall>es. map_of (logEntries ?self) n = Some es \<longrightarrow> distinct (map timestamp es))
                    \<longrightarrow> map_of (nodeData self') n = map_of (nodeData ?self) n"
    by blast
  from nodes nt
  have "map_of (nodeData self') ''keepalived-master-0'' =
      map_of (nodeData ?self) ''keepalived-master-0''"
    by blast
  with p' tb have "parse_and_process iso_sample True [?fT, ?fL] = Inr self' \<and>
      timeBounds self' = (Some 1672531200000000, Some 1672531500000000) \<and>
      map_of (nodeData self') ''keepalived-master-0'' =
        Some \<lparr>vipChanges = [[], [1672531200000000, 1672531500000000], [], []],
              events = [], addrs = {}\<rparr>"
    by simp
  with first show ?thesis
    by blast
qed

end
